theory Spec2Isabelle
  imports Complex_Main "HOL-Library.Log_Nat"
begin

section \<open>JavaScript numbers and values\<close>

text \<open>
  The program computes on JavaScript numbers. A finite number is modelled by the real it
  denotes (no rounding and no overflow: the arithmetic on finite numbers is exact), and
  the three values that a division by zero brings in are kept apart: \<open>0 / 0\<close> is
  \<open>NaN\<close>, \<open>x / 0\<close> is an infinity. Every zero divisor of the program is a period,
  that is the integer \<open>0\<close>, so a zero stands for \<open>+0\<close> everywhere.
\<close>

datatype number = Num real | PInf | NInf | NaN

fun num_neg :: "number \<Rightarrow> number" where
  "num_neg (Num a) = Num (- a)"
| "num_neg PInf = NInf"
| "num_neg NInf = PInf"
| "num_neg NaN = NaN"

fun num_add :: "number \<Rightarrow> number \<Rightarrow> number" where
  "num_add (Num a) (Num b) = Num (a + b)"
| "num_add (Num a) PInf = PInf"
| "num_add (Num a) NInf = NInf"
| "num_add PInf (Num b) = PInf"
| "num_add PInf PInf = PInf"
| "num_add PInf NInf = NaN"
| "num_add NInf (Num b) = NInf"
| "num_add NInf NInf = NInf"
| "num_add NInf PInf = NaN"
| "num_add NaN b = NaN"
| "num_add a NaN = NaN"

definition num_sub :: "number \<Rightarrow> number \<Rightarrow> number" where
  "num_sub a b = num_add a (num_neg b)"

text \<open>The sign of a number that is not \<open>NaN\<close>: \<open>True\<close> for a negative one.\<close>

fun num_negative :: "number \<Rightarrow> bool" where
  "num_negative (Num a) = (a < 0)"
| "num_negative NInf = True"
| "num_negative PInf = False"
| "num_negative NaN = False"

definition signed_inf :: "bool \<Rightarrow> number" where
  "signed_inf negative = (if negative then NInf else PInf)"

fun num_mul :: "number \<Rightarrow> number \<Rightarrow> number" where
  "num_mul (Num a) (Num b) = Num (a * b)"
| "num_mul NaN b = NaN"
| "num_mul a NaN = NaN"
| "num_mul (Num a) b = (if a = 0 then NaN else signed_inf ((a < 0) \<noteq> num_negative b))"
| "num_mul a (Num b) = (if b = 0 then NaN else signed_inf (num_negative a \<noteq> (b < 0)))"
| "num_mul a b = signed_inf (num_negative a \<noteq> num_negative b)"

fun num_div :: "number \<Rightarrow> number \<Rightarrow> number" where
  "num_div (Num a) (Num b) =
     (if b = 0 then (if a = 0 then NaN else signed_inf (a < 0)) else Num (a / b))"
| "num_div NaN b = NaN"
| "num_div a NaN = NaN"
| "num_div (Num a) b = Num 0"
| "num_div a (Num b) = signed_inf (num_negative a \<noteq> (b < 0))"
| "num_div a b = NaN"

text \<open>\<open>Math.sqrt\<close> and \<open>Math.pow(x, 2)\<close>.\<close>

fun num_sqrt :: "number \<Rightarrow> number" where
  "num_sqrt (Num a) = (if a < 0 then NaN else Num (sqrt a))"
| "num_sqrt PInf = PInf"
| "num_sqrt NInf = NaN"
| "num_sqrt NaN = NaN"

fun num_pow2 :: "number \<Rightarrow> number" where
  "num_pow2 (Num a) = Num (a ^ 2)"
| "num_pow2 PInf = PInf"
| "num_pow2 NInf = PInf"
| "num_pow2 NaN = NaN"

text \<open>Comparisons: every comparison with \<open>NaN\<close> is false.\<close>

fun num_lt :: "number \<Rightarrow> number \<Rightarrow> bool" where
  "num_lt (Num a) (Num b) = (a < b)"
| "num_lt NaN b = False"
| "num_lt a NaN = False"
| "num_lt a NInf = False"
| "num_lt PInf b = False"
| "num_lt a b = True"

definition num_gt :: "number \<Rightarrow> number \<Rightarrow> bool" where
  "num_gt a b = num_lt b a"

definition num_le :: "number \<Rightarrow> number \<Rightarrow> bool" where
  "num_le a b = (a \<noteq> NaN \<and> b \<noteq> NaN \<and> \<not> num_lt b a)"

text \<open>Strict equality \<open>===\<close> of two numbers.\<close>

definition num_eq :: "number \<Rightarrow> number \<Rightarrow> bool" where
  "num_eq a b = (a \<noteq> NaN \<and> a = b)"

text \<open>
  What an indicator returns: \<open>null\<close> (the unavailable marker), \<open>undefined\<close> (the
  first element of an empty array) or a number.
\<close>

datatype val = Null | Undefined | Val number

fun to_number :: "val \<Rightarrow> number" where
  "to_number Null = Num 0"
| "to_number Undefined = NaN"
| "to_number (Val n) = n"

fun to_boolean :: "val \<Rightarrow> bool" where
  "to_boolean Null = False"
| "to_boolean Undefined = False"
| "to_boolean (Val n) = (n \<noteq> NaN \<and> n \<noteq> Num 0)"

section \<open>Configuration\<close>

text \<open>The symbols to monitor and the timeframes to analyze.\<close>

definition SYMBOLS :: "string list" where
  "SYMBOLS = [''BTC'', ''ETH'', ''SUI'', ''AVAX'', ''ASTER'', ''MOVE'', ''KAS'', ''SOL'',
              ''MINA'', ''ZEC'', ''XMR'', ''HYPE'']"

definition TIMEFRAMES :: "string list" where
  "TIMEFRAMES = [''5m'', ''15m'', ''30m'', ''4h'', ''1d'', ''3d'', ''1w'', ''1M'']"

section \<open>TechnicalIndicators\<close>

text \<open>
  A price series is an array of finite numbers, oldest first. A period is a count. The
  sums, differences and products of finite numbers are finite, so the loops over the
  prices compute on reals, and a \<open>number\<close> appears where the code divides.
\<close>

text \<open>\<open>prices.slice(-period)\<close>: the last \<open>period\<close> elements, and the whole array for
  \<open>-0\<close>.\<close>

definition slice_last :: "real list \<Rightarrow> nat \<Rightarrow> real list" where
  "slice_last prices period =
     (if period = 0 then prices else drop (length prices - period) prices)"

definition calculateMA :: "real list \<Rightarrow> nat \<Rightarrow> val" where
  "calculateMA prices period =
     (if length prices < period then Null
      else let sum = foldl (\<lambda>acc price. acc + price) 0 (slice_last prices period)
           in Val (num_div (Num sum) (Num (real period))))"

text \<open>The loop of \<open>calculateEMA\<close>, from index \<open>i\<close> on.\<close>

function ema_loop :: "real list \<Rightarrow> real \<Rightarrow> nat \<Rightarrow> real \<Rightarrow> real" where
  "ema_loop prices k i ema =
     (if i < length prices then ema_loop prices k (i + 1) (prices ! i * k + ema * (1 - k))
      else ema)"
  by pat_completeness auto
termination
  by (relation "measure (\<lambda>(prices, k, i, ema). length prices - i)") auto

text \<open>
  \<open>period + 1\<close> is never zero, so \<open>k\<close> is finite. The seed \<open>prices[0]\<close> of an empty
  array is \<open>undefined\<close>, and the loop does not run then.
\<close>

definition calculateEMA :: "real list \<Rightarrow> nat \<Rightarrow> val" where
  "calculateEMA prices period =
     (if length prices < period then Null
      else let k = 2 / (real period + 1)
           in case prices of
                [] \<Rightarrow> Undefined
              | p0 # rest \<Rightarrow> Val (Num (ema_loop prices k 1 p0)))"

text \<open>
  The loop of \<open>calculateRSI\<close>, from index \<open>i\<close> on, on the pair of \<open>gains\<close> and
  \<open>losses\<close>. It runs under the guard \<open>period + 1 \<le> prices.length\<close>, so every read is
  in range.
\<close>

function rsi_loop :: "real list \<Rightarrow> nat \<Rightarrow> nat \<Rightarrow> real \<times> real \<Rightarrow> real \<times> real" where
  "rsi_loop prices period i (gains, losses) =
     (if i \<le> period
      then let change = prices ! i - prices ! (i - 1)
           in if change \<ge> 0 then rsi_loop prices period (i + 1) (gains + change, losses)
              else rsi_loop prices period (i + 1) (gains, losses - change)
      else (gains, losses))"
  by pat_completeness auto
termination
  by (relation "measure (\<lambda>(prices, period, i, acc). period + 1 - i)") auto

definition calculateRSI :: "real list \<Rightarrow> nat \<Rightarrow> val" where
  "calculateRSI prices period =
     (if length prices < period + 1 then Null
      else let (gains, losses) = rsi_loop prices period 1 (0, 0);
               avgGain = num_div (Num gains) (Num (real period));
               avgLoss = num_div (Num losses) (Num (real period))
           in if num_eq avgLoss (Num 0) then Val (Num 100)
              else let rs = num_div avgGain avgLoss
                   in Val (num_sub (Num 100) (num_div (Num 100) (num_add (Num 1) rs))))"

record macd_result =
  macd :: number
  signal :: val
  histogram :: val

definition calculateMACD :: "real list \<Rightarrow> nat \<Rightarrow> nat \<Rightarrow> nat \<Rightarrow> macd_result option" where
  "calculateMACD prices fast slow sig =
     (if length prices < slow then None
      else let fastEMA = calculateEMA prices fast;
               slowEMA = calculateEMA prices slow;
               macdLine = num_sub (to_number fastEMA) (to_number slowEMA)
           in Some \<lparr>macd = macdLine, signal = Null, histogram = Null\<rparr>)"

text \<open>The loop of \<open>calculateBollingerBands\<close>, from index \<open>i\<close> on.\<close>

function bb_loop :: "real list \<Rightarrow> number \<Rightarrow> nat \<Rightarrow> number \<Rightarrow> number" where
  "bb_loop prices ma i sumSquaredDiffs =
     (if i < length prices
      then bb_loop prices ma (i + 1)
             (num_add sumSquaredDiffs (num_pow2 (num_sub (Num (prices ! i)) ma)))
      else sumSquaredDiffs)"
  by pat_completeness auto
termination
  by (relation "measure (\<lambda>(prices, ma, i, acc). length prices - i)") auto

record bands =
  upper :: number
  middle :: val
  lower :: number

definition calculateBollingerBands :: "real list \<Rightarrow> nat \<Rightarrow> real \<Rightarrow> bands option" where
  "calculateBollingerBands prices period stdDev =
     (if length prices < period then None
      else let ma = calculateMA prices period;
               sumSquaredDiffs =
                 bb_loop prices (to_number ma) (length prices - period) (Num 0);
               std = num_sqrt (num_div sumSquaredDiffs (Num (real period)));
               upperBand = num_add (to_number ma) (num_mul (Num stdDev) std);
               lowerBand = num_sub (to_number ma) (num_mul (Num stdDev) std)
           in Some \<lparr>upper = upperBand, middle = ma, lower = lowerBand\<rparr>)"

section \<open>TechnicalIndicators in double arithmetic\<close>

text \<open>
  The numbers of the program are doubles: every operation returns the exact result
  rounded to a double, and a result too large for a double is an infinity. Where a value
  that is computed matters, and not only the shape of the computation, the indicators are
  written again with the rounding in every operation, in the order of the code. The
  rounding is an argument \<open>fl\<close>: it takes the exact result of an operation on finite
  numbers to the double that is returned, or to an infinity. \<open>Math.sqrt\<close> and
  \<open>Math.pow(x, 2)\<close> are rounded like the four operations. The prices of a series are
  finite numbers. With \<open>Num\<close> for \<open>fl\<close>, that is without rounding, these are the
  functions of the section before.
\<close>

type_synonym rounding = "real \<Rightarrow> number"

fun rounded :: "rounding \<Rightarrow> number \<Rightarrow> number" where
  "rounded fl (Num r) = fl r"
| "rounded fl PInf = PInf"
| "rounded fl NInf = NInf"
| "rounded fl NaN = NaN"

definition fl_add :: "rounding \<Rightarrow> number \<Rightarrow> number \<Rightarrow> number" where
  "fl_add fl a b = rounded fl (num_add a b)"

definition fl_sub :: "rounding \<Rightarrow> number \<Rightarrow> number \<Rightarrow> number" where
  "fl_sub fl a b = rounded fl (num_sub a b)"

definition fl_mul :: "rounding \<Rightarrow> number \<Rightarrow> number \<Rightarrow> number" where
  "fl_mul fl a b = rounded fl (num_mul a b)"

definition fl_div :: "rounding \<Rightarrow> number \<Rightarrow> number \<Rightarrow> number" where
  "fl_div fl a b = rounded fl (num_div a b)"

definition fl_sqrt :: "rounding \<Rightarrow> number \<Rightarrow> number" where
  "fl_sqrt fl a = rounded fl (num_sqrt a)"

definition fl_pow2 :: "rounding \<Rightarrow> number \<Rightarrow> number" where
  "fl_pow2 fl a = rounded fl (num_pow2 a)"

text \<open>\<open>a >= b\<close>.\<close>

definition num_ge :: "number \<Rightarrow> number \<Rightarrow> bool" where
  "num_ge a b = num_le b a"

definition calculateMA_fl :: "rounding \<Rightarrow> real list \<Rightarrow> nat \<Rightarrow> val" where
  "calculateMA_fl fl prices period =
     (if length prices < period then Null
      else let sum = foldl (\<lambda>acc price. fl_add fl acc (Num price)) (Num 0)
                       (slice_last prices period)
           in Val (fl_div fl sum (Num (real period))))"

function rsi_loop_fl ::
  "rounding \<Rightarrow> real list \<Rightarrow> nat \<Rightarrow> nat \<Rightarrow> number \<times> number \<Rightarrow> number \<times> number" where
  "rsi_loop_fl fl prices period i (gains, losses) =
     (if i \<le> period
      then let change = fl_sub fl (Num (prices ! i)) (Num (prices ! (i - 1)))
           in if num_ge change (Num 0)
              then rsi_loop_fl fl prices period (i + 1) (fl_add fl gains change, losses)
              else rsi_loop_fl fl prices period (i + 1) (gains, fl_sub fl losses change)
      else (gains, losses))"
  by pat_completeness auto
termination
  by (relation "measure (\<lambda>(fl, prices, period, i, acc). period + 1 - i)") auto

definition calculateRSI_fl :: "rounding \<Rightarrow> real list \<Rightarrow> nat \<Rightarrow> val" where
  "calculateRSI_fl fl prices period =
     (if length prices < period + 1 then Null
      else let (gains, losses) = rsi_loop_fl fl prices period 1 (Num 0, Num 0);
               avgGain = fl_div fl gains (Num (real period));
               avgLoss = fl_div fl losses (Num (real period))
           in if num_eq avgLoss (Num 0) then Val (Num 100)
              else let rs = fl_div fl avgGain avgLoss
                   in Val (fl_sub fl (Num 100) (fl_div fl (Num 100) (fl_add fl (Num 1) rs))))"

function bb_loop_fl :: "rounding \<Rightarrow> real list \<Rightarrow> number \<Rightarrow> nat \<Rightarrow> number \<Rightarrow> number" where
  "bb_loop_fl fl prices ma i sumSquaredDiffs =
     (if i < length prices
      then bb_loop_fl fl prices ma (i + 1)
             (fl_add fl sumSquaredDiffs (fl_pow2 fl (fl_sub fl (Num (prices ! i)) ma)))
      else sumSquaredDiffs)"
  by pat_completeness auto
termination
  by (relation "measure (\<lambda>(fl, prices, ma, i, acc). length prices - i)") auto

definition calculateBollingerBands_fl ::
  "rounding \<Rightarrow> real list \<Rightarrow> nat \<Rightarrow> real \<Rightarrow> bands option" where
  "calculateBollingerBands_fl fl prices period stdDev =
     (if length prices < period then None
      else let ma = calculateMA_fl fl prices period;
               sumSquaredDiffs =
                 bb_loop_fl fl prices (to_number ma) (length prices - period) (Num 0);
               std = fl_sqrt fl (fl_div fl sumSquaredDiffs (Num (real period)));
               upperBand = fl_add fl (to_number ma) (fl_mul fl (Num stdDev) std);
               lowerBand = fl_sub fl (to_number ma) (fl_mul fl (Num stdDev) std)
           in Some \<lparr>upper = upperBand, middle = ma, lower = lowerBand\<rparr>)"

text \<open>
  What the statements below use of the rounding of doubles (to the nearest, ties to
  even): it keeps the order, it keeps 0, and a double is rounded to itself.
\<close>

definition ieee_like :: "rounding \<Rightarrow> bool" where
  "ieee_like fl \<longleftrightarrow>
     (\<forall>x y. x \<le> y \<longrightarrow> num_le (fl x) (fl y))
     \<and> fl 0 = Num 0
     \<and> (\<forall>x y. fl x = Num y \<longrightarrow> fl y = Num y)"

text \<open>A finite number that is a double.\<close>

definition representable :: "rounding \<Rightarrow> real \<Rightarrow> bool" where
  "representable fl x \<longleftrightarrow> fl x = Num x"

text \<open>
  The doubles lie on a grid: two of them are at least \<open>m\<close> apart, and the first
  \<open>n\<close> multiples of \<open>m\<close> are doubles (for the doubles, \<open>m\<close> is \<open>2\<^sup>-\<^sup>1\<^sup>0\<^sup>7\<^sup>4\<close>).
\<close>

definition grid :: "rounding \<Rightarrow> real \<Rightarrow> nat \<Rightarrow> bool" where
  "grid fl m n \<longleftrightarrow>
     0 < m \<and> representable fl (- m)
     \<and> (\<forall>k\<le>n. representable fl (real k * m))
     \<and> (\<forall>x y. representable fl x \<and> representable fl y \<and> x < y \<longrightarrow> m \<le> y - x)"

text \<open>A number that is not negative: a finite one from 0 on, or \<open>Infinity\<close>.\<close>

definition nonneg :: "number \<Rightarrow> bool" where
  "nonneg n = num_le (Num 0) n"

text \<open>\<open>avgGain\<close> and \<open>avgLoss\<close> of \<open>calculateRSI\<close>.\<close>

definition rsi_averages_fl :: "rounding \<Rightarrow> real list \<Rightarrow> nat \<Rightarrow> number \<times> number" where
  "rsi_averages_fl fl prices period =
     (let (gains, losses) = rsi_loop_fl fl prices period 1 (Num 0, Num 0)
      in (fl_div fl gains (Num (real period)), fl_div fl losses (Num (real period))))"

subsection \<open>The rounding of the doubles\<close>

text \<open>
  A double is \<open>0\<close> or \<open>\<plusminus> n \<sqdot> 2\<^sup>e\<close> with \<open>n < 2\<^sup>5\<^sup>3\<close> and \<open>-1074 \<le> e \<le> 971\<close> (IEEE 754 binary64,
  the numbers of JavaScript). An operation returns the double nearest to the exact
  result, the one with the even \<open>n\<close> when two are as near, and an infinity when that
  double would be larger than the largest one, \<open>(2\<^sup>5\<^sup>3 - 1) \<sqdot> 2\<^sup>9\<^sup>7\<^sup>1\<close>. As before there is one
  zero: a negative result too small for a double is \<open>0\<close>, and none of the functions below
  divides by a zero that was computed.

  \<open>ilog2 x\<close> is the \<open>k\<close> with \<open>2\<^sup>k \<le> x < 2\<^sup>k\<^sup>+\<^sup>1\<close>, for \<open>x > 0\<close>.
\<close>

definition ilog2 :: "real \<Rightarrow> int" where
  "ilog2 x = (if 1 \<le> x then bitlen \<lfloor>x\<rfloor> - 1 else - bitlen (\<lceil>1 / x\<rceil> - 1))"

text \<open>To the nearest integer, to the even one from a half.\<close>

definition rhe :: "real \<Rightarrow> int" where
  "rhe q = (let f = \<lfloor>q\<rfloor>
            in if q - real_of_int f < 1 / 2 then f
               else if q - real_of_int f > 1 / 2 then f + 1
               else if even f then f else f + 1)"

text \<open>
  The exponent \<open>e\<close> of the doubles around \<open>a > 0\<close>: they are \<open>2\<^sup>e\<close> apart, with 53 bits
  from the leading one of \<open>a\<close>, and \<open>2\<^sup>-\<^sup>1\<^sup>0\<^sup>7\<^sup>4\<close> apart near \<open>0\<close>.
\<close>

definition ulp_exp :: "real \<Rightarrow> int" where
  "ulp_exp a = max (ilog2 a - 52) (- 1074)"

definition round_pos :: "real \<Rightarrow> real" where
  "round_pos a = real_of_int (rhe (a / 2 powi (ulp_exp a))) * 2 powi (ulp_exp a)"

definition double_max :: real where
  "double_max = (2 ^ 53 - 1) * 2 ^ 971"

definition double_min :: real where
  "double_min = 2 powi (- 1074)"

definition double_round :: rounding where
  "double_round x =
     (if x = 0 then Num 0
      else if 0 < x
           then (if double_max < round_pos x then PInf else Num (round_pos x))
           else (if double_max < round_pos (- x) then NInf else Num (- round_pos (- x))))"

section \<open>SMCAnalysis\<close>

datatype swing_type = high | low

record swing =
  type :: swing_type
  index :: nat
  price :: real

text \<open>
  The inner loop of \<open>findSwings\<close> over the window of \<open>i\<close>, from \<open>j\<close> on, on the pair
  of \<open>isHigh\<close> and \<open>isLow\<close>. The outer loop keeps \<open>i - windowSize\<close> and
  \<open>i + windowSize\<close> in range.
\<close>

function window_loop :: "real list \<Rightarrow> nat \<Rightarrow> nat \<Rightarrow> nat \<Rightarrow> bool \<times> bool \<Rightarrow> bool \<times> bool" where
  "window_loop prices windowSize i j (isHigh, isLow) =
     (if j \<le> i + windowSize
      then window_loop prices windowSize i (j + 1)
             (if j \<noteq> i
              then (if prices ! j \<ge> prices ! i then False else isHigh,
                    if prices ! j \<le> prices ! i then False else isLow)
              else (isHigh, isLow))
      else (isHigh, isLow))"
  by pat_completeness auto
termination
  by (relation "measure (\<lambda>(prices, windowSize, i, j, acc). i + windowSize + 1 - j)") auto

text \<open>The outer loop, from index \<open>i\<close> on: \<open>i < prices.length - windowSize\<close> on
  integers is \<open>i + windowSize < prices.length\<close>.\<close>

function findSwings_loop :: "real list \<Rightarrow> nat \<Rightarrow> nat \<Rightarrow> swing list \<Rightarrow> swing list" where
  "findSwings_loop prices windowSize i swings =
     (if i + windowSize < length prices
      then let currentPrice = prices ! i;
               (isHigh, isLow) = window_loop prices windowSize i (i - windowSize) (True, True)
           in findSwings_loop prices windowSize (i + 1)
                (if isHigh then swings @ [\<lparr>type = high, index = i, price = currentPrice\<rparr>]
                 else if isLow then swings @ [\<lparr>type = low, index = i, price = currentPrice\<rparr>]
                 else swings)
      else swings)"
  by pat_completeness auto
termination
  by (relation "measure (\<lambda>(prices, windowSize, i, swings). length prices - i)") auto

definition findSwings :: "real list \<Rightarrow> nat \<Rightarrow> swing list" where
  "findSwings prices windowSize = findSwings_loop prices windowSize windowSize []"

section \<open>PriceFetcher\<close>

text \<open>
  \<open>Math.random\<close> is the one source of randomness. The generator is the sequence of the
  numbers it will return; a call takes the first and leaves the rest.
\<close>

type_synonym rng = "nat \<Rightarrow> real"

definition math_random :: "rng \<Rightarrow> real \<times> rng" where
  "math_random rnd = (rnd 0, \<lambda>n. rnd (Suc n))"

text \<open>
  The loop of \<open>fetchHistoricalData\<close>: the first argument is the number of turns left, so
  the loop variable \<open>i\<close> of the code, which goes from 99 down to 0, is one less.
\<close>

fun mock_loop :: "nat \<Rightarrow> real \<Rightarrow> rng \<Rightarrow> real list \<Rightarrow> real list \<times> rng" where
  "mock_loop 0 currentPrice rnd mockData = (mockData, rnd)"
| "mock_loop (Suc i) currentPrice rnd mockData =
     (let (r, rnd') = math_random rnd;
          variation = (r - 0.5) * 0.1;
          price = currentPrice * (1 + variation * (real i / 100))
      in mock_loop i currentPrice rnd' (mockData @ [price]))"

definition fetchHistoricalData :: "string \<Rightarrow> string \<Rightarrow> rng \<Rightarrow> real list \<times> rng" where
  "fetchHistoricalData symbol timeframe rnd =
     (let (r, rnd') = math_random rnd;
          currentPrice = r * 10000
      in mock_loop 100 currentPrice rnd' [])"

section \<open>DecisionEngine\<close>

datatype decision = BUY | SELL | HOLD | INSUFFICIENT_DATA

datatype confidence = LOW | MEDIUM | HIGH

record indicators =
  ma20 :: val
  ma50 :: val
  rsi :: val
  ema12 :: val
  ema26 :: val
  bb :: "bands option"
  macd :: "macd_result option"

text \<open>
  The object that \<open>analyzeSymbol\<close> returns. A field that the object does not have
  (\<open>undefined\<close> when read) is \<open>None\<close>.
\<close>

record analysis =
  symbol :: string
  timeframe :: string
  currentPrice :: "real option"
  decision :: decision
  confidence :: "confidence option"
  signals :: "string list option"
  indicators :: "indicators option"
  reason :: "string option"

text \<open>\<open>s.includes(t)\<close>: \<open>t\<close> occurs in \<open>s\<close>.\<close>

fun starts_with :: "string \<Rightarrow> string \<Rightarrow> bool" where
  "starts_with s [] = True"
| "starts_with [] (d # t) = False"
| "starts_with (c # s) (d # t) = (c = d \<and> starts_with s t)"

fun includes_str :: "string \<Rightarrow> string \<Rightarrow> bool" where
  "includes_str [] t = (t = [])"
| "includes_str (c # s) t = (starts_with (c # s) t \<or> includes_str s t)"

text \<open>The indicators of a series, with the default periods.\<close>

definition calculateIndicators :: "real list \<Rightarrow> indicators" where
  "calculateIndicators historicalData =
     \<lparr>ma20 = calculateMA historicalData 20,
      ma50 = calculateMA historicalData 50,
      rsi = calculateRSI historicalData 14,
      ema12 = calculateEMA historicalData 12,
      ema26 = calculateEMA historicalData 26,
      bb = calculateBollingerBands historicalData 20 2,
      macd = calculateMACD historicalData 12 26 9\<rparr>"

text \<open>
  The four groups of signals. Each group pushes at most one tag on the array
  \<open>signals\<close>: a group is the list of what it pushes, and the array is the four lists
  one after the other.
\<close>

definition trendSignals :: "indicators \<Rightarrow> string list" where
  "trendSignals ind =
     (if to_boolean (ma20 ind) \<and> to_boolean (ma50 ind)
      then (if num_gt (to_number (ma20 ind)) (to_number (ma50 ind))
            then [''BULLISH_TREND''] else [''BEARISH_TREND''])
      else [])"

definition rsiSignals :: "indicators \<Rightarrow> string list" where
  "rsiSignals ind =
     (if rsi ind \<noteq> Null
      then (if num_lt (to_number (rsi ind)) (Num 30) then [''OVERSOLD'']
            else if num_gt (to_number (rsi ind)) (Num 70) then [''OVERBOUGHT'']
            else [''NEUTRAL_RSI''])
      else [])"

definition macdSignals :: "indicators \<Rightarrow> string list" where
  "macdSignals ind =
     (if macd ind \<noteq> None
      then (if num_gt (to_number (ema12 ind)) (to_number (ema26 ind))
            then [''BULLISH_MACD''] else [''BEARISH_MACD''])
      else [])"

definition bandSignals :: "real \<Rightarrow> indicators \<Rightarrow> string list" where
  "bandSignals current ind =
     (case bb ind of
        None \<Rightarrow> []
      | Some b \<Rightarrow>
          (if num_gt (Num current) (upper b) then [''RESISTANCE_TOUCH'']
           else if num_lt (Num current) (lower b) then [''SUPPORT_TOUCH'']
           else [''WITHIN_BANDS'']))"

definition collectSignals :: "real \<Rightarrow> indicators \<Rightarrow> string list" where
  "collectSignals current ind =
     trendSignals ind @ rsiSignals ind @ macdSignals ind @ bandSignals current ind"

definition bullishSignals :: "string list \<Rightarrow> nat" where
  "bullishSignals tags =
     length (filter (\<lambda>signal. includes_str signal ''BULLISH'' \<or> includes_str signal ''OVERSOLD'')
               tags)"

definition bearishSignals :: "string list \<Rightarrow> nat" where
  "bearishSignals tags =
     length (filter (\<lambda>signal. includes_str signal ''BEARISH'' \<or> includes_str signal ''OVERBOUGHT'')
               tags)"

text \<open>The overall decision and its confidence, from the two counts.\<close>

definition decide :: "nat \<Rightarrow> nat \<Rightarrow> decision \<times> confidence" where
  "decide bullish bearish =
     (if bullish > bearish + 1 then (BUY, if bullish \<ge> 4 then HIGH else MEDIUM)
      else if bearish > bullish + 1 then (SELL, if bearish \<ge> 4 then HIGH else MEDIUM)
      else (HOLD, LOW))"

text \<open>
  \<open>analyzeSymbol\<close> after the fetch: \<open>None\<close> is a series that is absent (\<open>null\<close> or
  \<open>undefined\<close>). The function is asynchronous, and every call is awaited before the
  next one starts, so the calls run one after the other and hand the generator on.
\<close>

definition analyzeSeries :: "string \<Rightarrow> string \<Rightarrow> real list option \<Rightarrow> analysis" where
  "analyzeSeries sy tf fetched =
     (let insufficient =
            \<lparr>symbol = sy, timeframe = tf, currentPrice = None,
             decision = INSUFFICIENT_DATA, confidence = None, signals = None,
             indicators = None, reason = Some ''Not enough historical data''\<rparr>
      in case fetched of
           None \<Rightarrow> insufficient
         | Some historicalData \<Rightarrow>
             if length historicalData < 20 then insufficient
             else let current = last historicalData;
                      ind = calculateIndicators historicalData;
                      sigs = collectSignals current ind;
                      (dec, conf) = decide (bullishSignals sigs) (bearishSignals sigs)
                  in \<lparr>symbol = sy, timeframe = tf, currentPrice = Some current,
                      decision = dec, confidence = Some conf, signals = Some sigs,
                      indicators = Some ind, reason = None\<rparr>)"

definition analyzeSymbol :: "string \<Rightarrow> string \<Rightarrow> rng \<Rightarrow> analysis \<times> rng" where
  "analyzeSymbol sy tf rnd =
     (let (historicalData, rnd') = fetchHistoricalData sy tf rnd
      in (analyzeSeries sy tf (Some historicalData), rnd'))"

text \<open>
  The exceptions of the analysis. Nothing in it throws by itself; what can throw is the
  read of a property of \<open>null\<close> or \<open>undefined\<close> (a \<open>TypeError\<close>): the length of the
  series, its last element, the call of an indicator, which starts with
  \<open>prices.length\<close>, and the two bands \<open>bb.upper\<close> and \<open>bb.lower\<close>. Here each of
  these reads is written out, in the order of the code, and an exception ends the
  function, since \<open>analyzeSymbol\<close> has no handler.
\<close>

datatype error = TypeError

definition read :: "'o option \<Rightarrow> ('o \<Rightarrow> 'a) \<Rightarrow> error + 'a" where
  "read object property = (case object of None \<Rightarrow> Inl TypeError | Some x \<Rightarrow> Inr (property x))"

fun and_then :: "error + 'a \<Rightarrow> ('a \<Rightarrow> error + 'b) \<Rightarrow> error + 'b" where
  "and_then (Inl e) f = Inl e"
| "and_then (Inr x) f = f x"

text \<open>\<open>!historicalData || historicalData.length < 20\<close>: the length is read only when
  the series is there.\<close>

definition notEnoughData :: "real list option \<Rightarrow> error + bool" where
  "notEnoughData historicalData =
     (if historicalData = None then Inr True
      else and_then (read historicalData length) (\<lambda>n. Inr (n < 20)))"

text \<open>The group of the bands: \<open>bb\<close> is tested, then its fields are read.\<close>

definition bandSignalsRead :: "real \<Rightarrow> bands option \<Rightarrow> error + string list" where
  "bandSignalsRead current bands =
     (if bands \<noteq> None
      then and_then (read bands upper) (\<lambda>u.
             if num_gt (Num current) u then Inr [''RESISTANCE_TOUCH'']
             else and_then (read bands lower) (\<lambda>l.
                    if num_lt (Num current) l then Inr [''SUPPORT_TOUCH'']
                    else Inr [''WITHIN_BANDS'']))
      else Inr [])"

definition analyzeSymbolBody :: "string \<Rightarrow> string \<Rightarrow> real list option \<Rightarrow> error + analysis" where
  "analyzeSymbolBody sy tf historicalData =
     and_then (notEnoughData historicalData) (\<lambda>notEnough.
       if notEnough
       then Inr \<lparr>symbol = sy, timeframe = tf, currentPrice = None,
                 decision = INSUFFICIENT_DATA, confidence = None, signals = None,
                 indicators = None, reason = Some ''Not enough historical data''\<rparr>
       else
         and_then (read historicalData last) (\<lambda>current.
         and_then (read historicalData (\<lambda>prices. calculateMA prices 20)) (\<lambda>m20.
         and_then (read historicalData (\<lambda>prices. calculateMA prices 50)) (\<lambda>m50.
         and_then (read historicalData (\<lambda>prices. calculateRSI prices 14)) (\<lambda>r.
         and_then (read historicalData (\<lambda>prices. calculateEMA prices 12)) (\<lambda>e12.
         and_then (read historicalData (\<lambda>prices. calculateEMA prices 26)) (\<lambda>e26.
         and_then (read historicalData (\<lambda>prices. calculateBollingerBands prices 20 2)) (\<lambda>b.
         and_then (read historicalData (\<lambda>prices. calculateMACD prices 12 26 9)) (\<lambda>m.
           let ind = \<lparr>ma20 = m20, ma50 = m50, rsi = r, ema12 = e12, ema26 = e26,
                      bb = b, macd = m\<rparr>
           in and_then (bandSignalsRead current b) (\<lambda>bandTags.
                let sigs = trendSignals ind @ rsiSignals ind @ macdSignals ind @ bandTags;
                    (dec, conf) = decide (bullishSignals sigs) (bearishSignals sigs)
                in Inr \<lparr>symbol = sy, timeframe = tf, currentPrice = Some current,
                         decision = dec, confidence = Some conf, signals = Some sigs,
                         indicators = Some ind, reason = None\<rparr>))))))))))"

text \<open>
  \<open>analyzeAllSymbols\<close>: an object filled key by key is the list of its entries in the
  order of insertion (the keys are distinct).
\<close>

fun analyzeTimeframes :: "string \<Rightarrow> string list \<Rightarrow> rng \<Rightarrow> (string \<times> analysis) list \<times> rng" where
  "analyzeTimeframes sy [] rnd = ([], rnd)"
| "analyzeTimeframes sy (tf # tfs) rnd =
     (let (a, rnd') = analyzeSymbol sy tf rnd;
          (rest, rnd'') = analyzeTimeframes sy tfs rnd'
      in ((tf, a) # rest, rnd''))"

type_synonym results = "(string \<times> (string \<times> analysis) list) list"

fun analyzeSymbols :: "string list \<Rightarrow> rng \<Rightarrow> results \<times> rng" where
  "analyzeSymbols [] rnd = ([], rnd)"
| "analyzeSymbols (sy # sys) rnd =
     (let (as, rnd') = analyzeTimeframes sy TIMEFRAMES rnd;
          (rest, rnd'') = analyzeSymbols sys rnd'
      in ((sy, as) # rest, rnd''))"

definition analyzeAllSymbols :: "rng \<Rightarrow> results \<times> rng" where
  "analyzeAllSymbols rnd = analyzeSymbols SYMBOLS rnd"

section \<open>The handlers\<close>

text \<open>
  The \<open>/signals\<close> handler takes the decisions of the analyses of one symbol, counts
  them, and takes the decision with strictly more votes than each of the two others.
\<close>

definition decisionsOf :: "(string \<times> analysis) list \<Rightarrow> decision list" where
  "decisionsOf symbolAnalyses = map (\<lambda>(tf, a). decision a) symbolAnalyses"

definition count_of :: "decision \<Rightarrow> decision list \<Rightarrow> nat" where
  "count_of d decisions = length (filter (\<lambda>x. x = d) decisions)"

definition aggregatedDecision :: "decision list \<Rightarrow> decision" where
  "aggregatedDecision decisions =
     (let buyCount = count_of BUY decisions;
          sellCount = count_of SELL decisions;
          holdCount = count_of HOLD decisions
      in if buyCount > sellCount \<and> buyCount > holdCount then BUY
         else if sellCount > buyCount \<and> sellCount > holdCount then SELL
         else HOLD)"

text \<open>The two numbers of the line \<open>Timeframes: v/t valid\<close>.\<close>

definition validTimeframes :: "decision list \<Rightarrow> nat \<times> nat" where
  "validTimeframes decisions =
     (length (filter (\<lambda>d. d \<noteq> INSUFFICIENT_DATA) decisions), length TIMEFRAMES)"

text \<open>
  \<open>periodicAnalysis\<close>: the scan for the analyses of confidence \<open>HIGH\<close>. An alert is
  the symbol, the timeframe, the decision and the confidence of one line of the message.
\<close>

type_synonym alert = "string \<times> string \<times> decision \<times> confidence"

fun scanTimeframes :: "string \<Rightarrow> (string \<times> analysis) list \<Rightarrow> alert list" where
  "scanTimeframes sy [] = []"
| "scanTimeframes sy ((tf, a) # rest) =
     (if confidence a = Some HIGH then (sy, tf, decision a, HIGH) # scanTimeframes sy rest
      else scanTimeframes sy rest)"

text \<open>
  A symbol that the results do not have makes \<open>Object.entries\<close> throw: \<open>None\<close>.
\<close>

fun scanSymbols :: "results \<Rightarrow> string list \<Rightarrow> alert list option" where
  "scanSymbols analysisResults [] = Some []"
| "scanSymbols analysisResults (sy # sys) =
     (case map_of analysisResults sy of
        None \<Rightarrow> None
      | Some symbolAnalyses \<Rightarrow>
          (case scanSymbols analysisResults sys of
             None \<Rightarrow> None
           | Some alerts \<Rightarrow> Some (scanTimeframes sy symbolAnalyses @ alerts)))"

record session =
  subscribed :: bool

text \<open>
  The messages sent, one for each subscribed chat that has an alert. The exception of a
  scan is caught around the whole loop, which stops there.
\<close>

fun sendAlerts :: "results \<Rightarrow> (string \<times> session) list \<Rightarrow> (string \<times> alert list) list" where
  "sendAlerts analysisResults [] = []"
| "sendAlerts analysisResults ((chatId, s) # rest) =
     (if subscribed s
      then (case scanSymbols analysisResults SYMBOLS of
              None \<Rightarrow> []
            | Some alerts \<Rightarrow>
                (if alerts \<noteq> [] then [(chatId, alerts)] else [])
                @ sendAlerts analysisResults rest)
      else sendAlerts analysisResults rest)"

definition periodicAnalysis ::
  "(string \<times> session) list \<Rightarrow> rng \<Rightarrow> (string \<times> alert list) list \<times> rng" where
  "periodicAnalysis sessions rnd =
     (let (analysisResults, rnd') = analyzeAllSymbols rnd
      in (sendAlerts analysisResults sessions, rnd'))"

section \<open>The loops in closed form\<close>


text \<open>The rises and the falls over the deltas at the indices \<open>1\<close> to \<open>p\<close>.\<close>

definition gains_of :: "real list \<Rightarrow> nat \<Rightarrow> real" where
  "gains_of prices p = (\<Sum>j = 1..p. max 0 (prices ! j - prices ! (j - 1)))"

definition losses_of :: "real list \<Rightarrow> nat \<Rightarrow> real" where
  "losses_of prices p = (\<Sum>j = 1..p. max 0 (prices ! (j - 1) - prices ! j))"

text \<open>The mean of the last \<open>p\<close> prices and the sum of their squared distances to it.\<close>

definition mean_last :: "real list \<Rightarrow> nat \<Rightarrow> real" where
  "mean_last prices p =
     foldl (\<lambda>acc price. acc + price) 0 (drop (length prices - p) prices) / real p"

definition sq_dev :: "real list \<Rightarrow> nat \<Rightarrow> real" where
  "sq_dev prices p =
     (\<Sum>j = length prices - p..<length prices. (prices ! j - mean_last prices p) ^ 2)"

text \<open>
  An index is a high when every other price of its window is strictly below its own, a
  low when every other one is strictly above.
\<close>

definition is_high :: "real list \<Rightarrow> nat \<Rightarrow> nat \<Rightarrow> bool" where
  "is_high prices w i = (\<forall>k\<in>{i - w..i + w}. k \<noteq> i \<longrightarrow> prices ! k < prices ! i)"

definition is_low :: "real list \<Rightarrow> nat \<Rightarrow> nat \<Rightarrow> bool" where
  "is_low prices w i = (\<forall>k\<in>{i - w..i + w}. k \<noteq> i \<longrightarrow> prices ! k > prices ! i)"

definition swing_at :: "real list \<Rightarrow> nat \<Rightarrow> nat \<Rightarrow> swing list" where
  "swing_at prices w i =
     (if is_high prices w i then [\<lparr>type = high, index = i, price = prices ! i\<rparr>]
      else if is_low prices w i then [\<lparr>type = low, index = i, price = prices ! i\<rparr>]
      else [])"

declare ema_loop.simps [simp del]
declare rsi_loop.simps [simp del]
declare bb_loop.simps [simp del]
declare window_loop.simps [simp del]
declare findSwings_loop.simps [simp del]
declare rsi_loop_fl.simps [simp del]
declare bb_loop_fl.simps [simp del]

section \<open>The exponential moving average\<close>




section \<open>The relative strength index\<close>

lemma rsi_loop_sum:
  "rsi_loop prices p i (g, l) =
     (g + (\<Sum>j = i..p. max 0 (prices ! j - prices ! (j - 1))),
      l + (\<Sum>j = i..p. max 0 (prices ! (j - 1) - prices ! j)))"
proof (induction "p + 1 - i" arbitrary: i g l)
  case 0
  then have "p < i" by simp
  then show ?case by (simp add: rsi_loop.simps)
next
  case (Suc n)
  then have le: "i \<le> p" by simp
  define c where "c = prices ! i - prices ! (i - 1)"
  have hyp: "rsi_loop prices p (Suc i) (g', l') =
     (g' + (\<Sum>j = Suc i..p. max 0 (prices ! j - prices ! (j - 1))),
      l' + (\<Sum>j = Suc i..p. max 0 (prices ! (j - 1) - prices ! j)))" for g' l'
    using Suc.hyps(1)[of "Suc i"] Suc.hyps(2) by simp
  have split1: "(\<Sum>j = i..p. max 0 (prices ! j - prices ! (j - 1))) =
      max 0 c + (\<Sum>j = Suc i..p. max 0 (prices ! j - prices ! (j - 1)))"
    using le by (simp add: sum.atLeast_Suc_atMost c_def)
  have split2: "(\<Sum>j = i..p. max 0 (prices ! (j - 1) - prices ! j)) =
      max 0 (- c) + (\<Sum>j = Suc i..p. max 0 (prices ! (j - 1) - prices ! j))"
    using le by (simp add: sum.atLeast_Suc_atMost c_def)
  have step: "rsi_loop prices p i (g, l) =
      (if c \<ge> 0 then rsi_loop prices p (Suc i) (g + c, l)
       else rsi_loop prices p (Suc i) (g, l - c))"
    using le by (subst rsi_loop.simps) (simp add: c_def Let_def)
  show ?case
  proof (cases "c \<ge> 0")
    case True
    then show ?thesis by (simp only: step hyp split1 split2) simp
  next
    case False
    then show ?thesis by (simp only: step hyp split1 split2) simp
  qed
qed

lemma rsi_loop_start:
  "rsi_loop prices p 1 (0, 0) = (gains_of prices p, losses_of prices p)"
  by (simp add: rsi_loop_sum gains_of_def losses_of_def)

lemma gains_losses_prefix:
  assumes "take (p + 1) s = take (p + 1) t"
  shows "gains_of s p = gains_of t p" and "losses_of s p = losses_of t p"
proof -
  have eq: "s ! j = t ! j" if "j \<le> p" for j
  proof -
    have "take (p + 1) s ! j = take (p + 1) t ! j" using assms by simp
    then show ?thesis using that by simp
  qed
  show "gains_of s p = gains_of t p"
    unfolding gains_of_def by (rule sum.cong) (auto simp: eq)
  show "losses_of s p = losses_of t p"
    unfolding losses_of_def by (rule sum.cong) (auto simp: eq)
qed

text \<open>
  C6. The loop of the relative strength index sums the rises and the falls over the
  deltas at the indices 1 to \<open>p\<close>, and two series of at least \<open>p + 1\<close> elements that
  agree on their first \<open>p + 1\<close> elements have the same index, whatever comes later.
\<close>

theorem rsi_oldest_samples_only:
  "(p + 1 \<le> length s \<longrightarrow>
      rsi_loop s p 1 (0, 0) =
        ((\<Sum>j = 1..p. max 0 (s ! j - s ! (j - 1))), (\<Sum>j = 1..p. max 0 (s ! (j - 1) - s ! j))))
   \<and> (p + 1 \<le> length s \<and> p + 1 \<le> length t \<and> take (p + 1) s = take (p + 1) t \<longrightarrow>
        calculateRSI s p = calculateRSI t p)"
proof (intro conjI impI)
  show "rsi_loop s p 1 (0, 0) =
     ((\<Sum>j = 1..p. max 0 (s ! j - s ! (j - 1))), (\<Sum>j = 1..p. max 0 (s ! (j - 1) - s ! j)))"
    by (simp only: rsi_loop_start gains_of_def losses_of_def)
next
  assume a: "p + 1 \<le> length s \<and> p + 1 \<le> length t \<and> take (p + 1) s = take (p + 1) t"
  then have eq: "take (p + 1) s = take (p + 1) t" by simp
  have loop: "rsi_loop s p 1 (0, 0) = rsi_loop t p 1 (0, 0)"
    by (simp only: rsi_loop_start gains_losses_prefix[OF eq])
  have "\<not> length s < p + 1" "\<not> length t < p + 1" using a by simp_all
  then show "calculateRSI s p = calculateRSI t p"
    by (simp only: calculateRSI_def loop if_False)
qed

theorem rsi_oldest_samples_only_witness:
  "3 + 1 \<le> length [1, 2, 4, 3, 100 :: real] \<and> 3 + 1 \<le> length [1, 2, 4, 3, - 7, 8 :: real]
   \<and> take (3 + 1) [1, 2, 4, 3, 100 :: real] = take (3 + 1) [1, 2, 4, 3, - 7, 8]
   \<and> rsi_loop [1, 2, 4, 3, 100] 3 1 (0, 0) = (3, 1)
   \<and> calculateRSI [1, 2, 4, 3, 100] 3 = calculateRSI [1, 2, 4, 3, - 7, 8] 3"
  using rsi_oldest_samples_only [of 3 "[1, 2, 4, 3, 100]" "[1, 2, 4, 3, - 7, 8]"]
  by (simp add: eval_nat_numeral sum.atLeast_Suc_atMost)

section \<open>The Bollinger bands\<close>

lemma bb_loop_sum:
  "bb_loop prices (Num m) i (Num a) =
     Num (a + (\<Sum>j = i..<length prices. (prices ! j - m) ^ 2))"
proof (induction "length prices - i" arbitrary: i a)
  case 0
  then show ?case by (simp add: bb_loop.simps)
next
  case (Suc n)
  then have lt: "i < length prices" by simp
  have hyp: "bb_loop prices (Num m) (Suc i) (Num a') =
     Num (a' + (\<Sum>j = Suc i..<length prices. (prices ! j - m) ^ 2))" for a'
    using Suc.hyps(1)[of "Suc i"] Suc.hyps(2) by simp
  have step: "bb_loop prices (Num m) i (Num a) =
      bb_loop prices (Num m) (Suc i) (Num (a + (prices ! i - m) ^ 2))"
    using lt by (subst bb_loop.simps) (simp add: num_sub_def)
  have split: "(\<Sum>j = i..<length prices. (prices ! j - m) ^ 2) =
      (prices ! i - m) ^ 2 + (\<Sum>j = Suc i..<length prices. (prices ! j - m) ^ 2)"
    using lt by (simp add: sum.atLeast_Suc_lessThan)
  show ?case by (simp only: step hyp split) simp
qed

lemma calculateMA_pos:
  "0 < p \<Longrightarrow> p \<le> length prices \<Longrightarrow> calculateMA prices p = Val (Num (mean_last prices p))"
  by (simp add: calculateMA_def slice_last_def mean_last_def)

lemma sq_dev_nonneg: "0 \<le> sq_dev prices p"
  unfolding sq_dev_def by (rule sum_nonneg) simp

lemma bollinger_pos:
  assumes "0 < p" "p \<le> length prices"
  shows "calculateBollingerBands prices p sd =
     Some \<lparr>upper = Num (mean_last prices p + sd * sqrt (sq_dev prices p / real p)),
           middle = Val (Num (mean_last prices p)),
           lower = Num (mean_last prices p - sd * sqrt (sq_dev prices p / real p))\<rparr>"
proof -
  have g: "\<not> length prices < p" using assms by simp
  have ma: "calculateMA prices p = Val (Num (mean_last prices p))"
    using assms by (rule calculateMA_pos)
  have loop: "bb_loop prices (Num (mean_last prices p)) (length prices - p) (Num 0) =
      Num (sq_dev prices p)"
    by (simp add: bb_loop_sum sq_dev_def)
  have p: "real p \<noteq> 0" using assms(1) by simp
  have dv: "num_div (Num (sq_dev prices p)) (Num (real p)) = Num (sq_dev prices p / real p)"
    using p by simp
  have "0 \<le> sq_dev prices p / real p" using sq_dev_nonneg[of prices p] by simp
  then have sq: "num_sqrt (Num (sq_dev prices p / real p)) = Num (sqrt (sq_dev prices p / real p))"
    by simp
  show ?thesis
    unfolding calculateBollingerBands_def Let_def ma to_number.simps loop dv sq
    using g by (simp add: num_sub_def)
qed

section \<open>The rounding of the doubles\<close>

lemma ilog2_bounds_ge1:
  assumes "1 \<le> x"
  shows "2 powi (ilog2 x) \<le> x \<and> x < 2 powi (ilog2 x + 1)"
proof -
  define n where "n = \<lfloor>x\<rfloor>"
  have n: "0 < n" using assms by (simp add: n_def)
  have b: "2 ^ nat (bitlen n - 1) \<le> n \<and> n < 2 ^ nat (bitlen n)" using n by (rule bitlen_bounds)
  have bl: "0 < bitlen n"
  proof (rule ccontr)
    assume "\<not> 0 < bitlen n"
    then have "nat (bitlen n) = 0" by simp
    with b have "n < 1" by simp
    with n show False by simp
  qed
  have "real_of_int (2 ^ nat (bitlen n - 1)) \<le> real_of_int n" using b by linarith
  then have lo: "2 powi (bitlen n - 1) \<le> real_of_int n"
    using bl by (simp add: power_int_nonneg_exp)
  have "n + 1 \<le> 2 ^ nat (bitlen n)" using b by linarith
  then have "real_of_int (n + 1) \<le> real_of_int (2 ^ nat (bitlen n))" by linarith
  then have hi: "real_of_int n + 1 \<le> 2 powi (bitlen n)"
    using bl by (simp add: power_int_nonneg_exp)
  have "real_of_int n \<le> x" "x < real_of_int n + 1" by (simp_all add: n_def)
  with lo hi show ?thesis using assms by (simp add: ilog2_def n_def[symmetric])
qed

lemma ilog2_bounds_lt1:
  assumes "0 < x" "x < 1"
  shows "2 powi (ilog2 x) \<le> x \<and> x < 2 powi (ilog2 x + 1)"
proof -
  define y where "y = 1 / x"
  define c where "c = \<lceil>y\<rceil> - 1"
  have y1: "1 < y" using assms by (simp add: y_def)
  have c: "0 < c" using y1 by (simp add: c_def less_ceiling_iff)
  have cy: "real_of_int c < y" "y \<le> real_of_int c + 1"
    unfolding c_def by linarith+
  have b: "2 ^ nat (bitlen c - 1) \<le> c \<and> c < 2 ^ nat (bitlen c)" using c by (rule bitlen_bounds)
  have bl: "0 < bitlen c"
  proof (rule ccontr)
    assume "\<not> 0 < bitlen c"
    then have "nat (bitlen c) = 0" by simp
    with b have "c < 1" by simp
    with c show False by simp
  qed
  have "real_of_int (2 ^ nat (bitlen c - 1)) \<le> real_of_int c" using b by linarith
  then have lo: "2 powi (bitlen c - 1) \<le> real_of_int c"
    using bl by (simp add: power_int_nonneg_exp)
  have "c + 1 \<le> 2 ^ nat (bitlen c)" using b by linarith
  then have "real_of_int (c + 1) \<le> real_of_int (2 ^ nat (bitlen c))" by linarith
  then have hi: "real_of_int c + 1 \<le> 2 powi (bitlen c)"
    using bl by (simp add: power_int_nonneg_exp)
  have ylo: "2 powi (bitlen c - 1) < y" using lo cy by linarith
  have yhi: "y \<le> 2 powi (bitlen c)" using hi cy by linarith
  have x: "x = 1 / y" using assms by (simp add: y_def)
  have p1: "(0::real) < 2 powi (bitlen c - 1)" and p2: "(0::real) < 2 powi (bitlen c)" by simp_all
  define P1 :: real where "P1 = 2 powi (bitlen c - 1)"
  define P2 :: real where "P2 = 2 powi (bitlen c)"
  have P: "0 < P1" "0 < P2" "P1 < y" "y \<le> P2"
    using ylo yhi by (simp_all add: P1_def P2_def)
  have "1 / P2 \<le> x" using P y1 by (simp add: x field_simps)
  then have r1: "2 powi (- bitlen c) \<le> x" by (simp add: P2_def power_int_minus_divide)
  have "x < 1 / P1" using P y1 by (simp add: x field_simps)
  then have r2: "x < 2 powi (- bitlen c + 1)"
    using power_int_minus_divide[of "2::real" "bitlen c - 1"] by (simp add: P1_def)
  have "ilog2 x = - bitlen c" using assms by (simp add: ilog2_def c_def y_def)
  with r1 r2 show ?thesis by simp
qed

lemma ilog2_bounds: "0 < x \<Longrightarrow> 2 powi (ilog2 x) \<le> x \<and> x < 2 powi (ilog2 x + 1)"
  using ilog2_bounds_ge1[of x] ilog2_bounds_lt1[of x] by (cases "1 \<le> x") simp_all

lemma ilog2_unique:
  assumes "2 powi k \<le> x" "x < 2 powi (k + 1)"
  shows "ilog2 x = k"
proof -
  have x: "0 < x" using assms(1) zero_less_power_int[of "2::real" k] by linarith
  have b: "2 powi (ilog2 x) \<le> x" "x < 2 powi (ilog2 x + 1)" using ilog2_bounds[OF x] by simp_all
  have a: "(2::real) powi k < 2 powi (ilog2 x + 1)" using assms(1) b(2) by linarith
  have "k < ilog2 x + 1"
  proof (rule ccontr)
    assume "\<not> k < ilog2 x + 1"
    then have "(2::real) powi (ilog2 x + 1) \<le> 2 powi k" by (intro power_int_increasing) simp_all
    with a show False by simp
  qed
  moreover have c: "(2::real) powi (ilog2 x) < 2 powi (k + 1)" using assms(2) b(1) by linarith
  have "ilog2 x < k + 1"
  proof (rule ccontr)
    assume "\<not> ilog2 x < k + 1"
    then have "(2::real) powi (k + 1) \<le> 2 powi (ilog2 x)" by (intro power_int_increasing) simp_all
    with c show False by simp
  qed
  ultimately show ?thesis by simp
qed

lemma rhe_int [simp]: "rhe (real_of_int n) = n"
  by (simp add: rhe_def)

lemma rhe_bounds: "\<lfloor>q\<rfloor> \<le> rhe q \<and> rhe q \<le> \<lfloor>q\<rfloor> + 1"
  by (simp add: rhe_def Let_def)

lemma rhe_mono:
  assumes "p \<le> q"
  shows "rhe p \<le> rhe q"
proof (cases "\<lfloor>p\<rfloor> = \<lfloor>q\<rfloor>")
  case True
  then show ?thesis using assms by (auto simp: rhe_def Let_def)
next
  case False
  moreover have "\<lfloor>p\<rfloor> \<le> \<lfloor>q\<rfloor>" using assms by (rule floor_mono)
  ultimately have "\<lfloor>p\<rfloor> + 1 \<le> \<lfloor>q\<rfloor>" by simp
  then show ?thesis using rhe_bounds[of p] rhe_bounds[of q] by linarith
qed

lemma rhe_le_int: "q \<le> real_of_int n \<Longrightarrow> rhe q \<le> n"
  using rhe_mono[of q "real_of_int n"] by simp

lemma rhe_ge_int: "real_of_int n \<le> q \<Longrightarrow> n \<le> rhe q"
  using rhe_mono[of "real_of_int n" q] by simp

lemma ilog2_mono:
  assumes "0 < x" "x \<le> y"
  shows "ilog2 x \<le> ilog2 y"
proof (rule ccontr)
  assume "\<not> ilog2 x \<le> ilog2 y"
  then have "ilog2 y + 1 \<le> ilog2 x" by simp
  then have "(2::real) powi (ilog2 y + 1) \<le> 2 powi (ilog2 x)"
    by (intro power_int_increasing) simp_all
  moreover have "y < 2 powi (ilog2 y + 1)" using ilog2_bounds[of y] assms by simp
  moreover have "2 powi (ilog2 x) \<le> x" using ilog2_bounds[of x] assms by simp
  ultimately show False using assms(2) by linarith
qed

lemma ulp_exp_mono: "0 < x \<Longrightarrow> x \<le> y \<Longrightarrow> ulp_exp x \<le> ulp_exp y"
  using ilog2_mono[of x y] by (simp add: ulp_exp_def)

text \<open>a value below the next power of two: its quotient by the unit is below 2^53\<close>

lemma below_top:
  assumes "0 < a"
  shows "a < 2 powi (ulp_exp a + 53)"
proof -
  have "a < 2 powi (ilog2 a + 1)" using ilog2_bounds[OF assms] by simp
  also have "\<dots> \<le> 2 powi (ulp_exp a + 53)"
    by (intro power_int_increasing) (simp_all add: ulp_exp_def)
  finally show ?thesis .
qed

lemma powi_split: "(2::real) powi (a + b) = 2 powi a * 2 powi b"
  by (simp add: power_int_add)

lemma div_powi: "(2::real) powi a / 2 powi b = 2 powi (a - b)"
  by (simp add: power_int_diff)

lemma powi_nonneg_int: "0 \<le> k \<Longrightarrow> (2::real) powi k = real_of_int (2 ^ nat k)"
  by (simp add: power_int_nonneg_exp)

lemma round_pos_nonneg: "0 < a \<Longrightarrow> 0 \<le> round_pos a"
proof -
  assume a: "0 < a"
  have "0 \<le> a / 2 powi (ulp_exp a)" using a by simp
  then have "0 \<le> rhe (a / 2 powi (ulp_exp a))" using rhe_ge_int[of 0] by simp
  then show ?thesis by (simp add: round_pos_def)
qed

text \<open>a multiple of a power of two with at most 53 bits is kept\<close>

lemma round_pos_exact:
  assumes n: "0 < n" "n < 2 ^ 53" and e: "- 1074 \<le> e"
  shows "round_pos (real_of_int n * 2 powi e) = real_of_int n * 2 powi e"
proof -
  define a where "a = real_of_int n * 2 powi e"
  define u where "u = ulp_exp a"
  have apos: "0 < a" using n by (simp add: a_def)
  have "real_of_int n < real_of_int (2 ^ 53)" using n(2) by (simp only: of_int_less_iff)
  then have "real_of_int n < 2 powi 53" by simp
  then have "a < 2 powi 53 * 2 powi e" by (simp add: a_def)
  then have alt: "a < 2 powi (e + 53)" by (simp add: power_int_add)
  have "ilog2 a < e + 53"
  proof (rule ccontr)
    assume "\<not> ilog2 a < e + 53"
    then have "(2::real) powi (e + 53) \<le> 2 powi (ilog2 a)"
      by (intro power_int_increasing) simp_all
    then show False using ilog2_bounds[OF apos] alt by linarith
  qed
  then have ue: "u \<le> e" using e by (simp add: u_def ulp_exp_def)
  have "a / 2 powi u = real_of_int n * (2 powi e / 2 powi u)" by (simp add: a_def)
  also have "\<dots> = real_of_int n * 2 powi (e - u)" by (simp only: div_powi)
  also have "\<dots> = real_of_int n * real_of_int (2 ^ nat (e - u))"
    using ue by (simp only: powi_nonneg_int[of "e - u"] diff_ge_0_iff_ge)
  also have "\<dots> = real_of_int (n * 2 ^ nat (e - u))" by simp
  finally have q: "a / 2 powi u = real_of_int (n * 2 ^ nat (e - u))" .
  have "round_pos a = real_of_int (rhe (a / 2 powi u)) * 2 powi u"
    by (simp add: round_pos_def u_def)
  also have "\<dots> = (a / 2 powi u) * 2 powi u" by (simp only: q rhe_int)
  also have "\<dots> = a" by simp
  finally show ?thesis by (simp add: a_def)
qed

text \<open>what rounding returns is such a multiple, or zero\<close>

lemma round_pos_form:
  assumes "0 < a"
  shows "\<exists>n e. 0 \<le> n \<and> n < 2 ^ 53 \<and> - 1074 \<le> e \<and> round_pos a = real_of_int n * 2 powi e"
proof -
  define u where "u = ulp_exp a"
  define m where "m = rhe (a / 2 powi u)"
  have rp: "round_pos a = real_of_int m * 2 powi u" by (simp add: round_pos_def u_def m_def)
  have u: "- 1074 \<le> u" by (simp add: u_def ulp_exp_def)
  have "0 \<le> a / 2 powi u" using assms by simp
  then have m0: "0 \<le> m" unfolding m_def using rhe_ge_int[of 0] by simp
  have "a < 2 powi (u + 53)" unfolding u_def by (rule below_top[OF assms])
  then have "a < 2 powi 53 * 2 powi u" by (simp add: power_int_add)
  then have "a / 2 powi u < 2 powi 53" by (simp add: field_simps)
  then have "a / 2 powi u \<le> real_of_int (2 ^ 53)" by simp
  then have m53: "m \<le> 2 ^ 53" unfolding m_def by (rule rhe_le_int)
  show ?thesis
  proof (cases "m = 2 ^ 53")
    case True
    have "round_pos a = 2 powi 53 * 2 powi u" by (simp add: rp True)
    also have "\<dots> = 2 powi 52 * 2 powi (u + 1)" by (simp add: power_int_add)
    also have "\<dots> = real_of_int (2 ^ 52) * 2 powi (u + 1)" by simp
    finally have "round_pos a = real_of_int (2 ^ 52) * 2 powi (u + 1)" .
    moreover have "(0::int) \<le> 2 ^ 52" "(2::int) ^ 52 < 2 ^ 53" "- 1074 \<le> u + 1" using u by simp_all
    ultimately show ?thesis by blast
  next
    case False
    then have "m < 2 ^ 53" using m53 by simp
    then show ?thesis using m0 u rp by blast
  qed
qed

lemma round_pos_idem:
  assumes "0 < a" "0 < round_pos a"
  shows "round_pos (round_pos a) = round_pos a"
proof -
  obtain n e where ne: "0 \<le> n" "n < 2 ^ 53" "- 1074 \<le> e" "round_pos a = real_of_int n * 2 powi e"
    using round_pos_form[OF assms(1)] by blast
  have "n \<noteq> 0" using assms(2) ne(4) by auto
  then have "0 < n" using ne(1) by simp
  then show ?thesis using round_pos_exact[of n e] ne by simp
qed

lemma round_pos_mono:
  assumes "0 < x" "x \<le> y"
  shows "round_pos x \<le> round_pos y"
proof (cases "ulp_exp x = ulp_exp y")
  case True
  have "x / 2 powi (ulp_exp y) \<le> y / 2 powi (ulp_exp y)"
    using assms(2) by (simp add: divide_right_mono)
  then have "rhe (x / 2 powi (ulp_exp y)) \<le> rhe (y / 2 powi (ulp_exp y))" by (rule rhe_mono)
  then have "real_of_int (rhe (x / 2 powi (ulp_exp y))) * 2 powi (ulp_exp y)
      \<le> real_of_int (rhe (y / 2 powi (ulp_exp y))) * 2 powi (ulp_exp y)"
    by (intro mult_right_mono) simp_all
  then show ?thesis by (simp add: round_pos_def True)
next
  case False
  define ux where "ux = ulp_exp x"
  define uy where "uy = ulp_exp y"
  define B where "B = (2::real) powi (ilog2 y)"
  have ypos: "0 < y" using assms by linarith
  have "ux \<le> uy" unfolding ux_def uy_def by (rule ulp_exp_mono[OF assms])
  then have lt: "ux < uy" using False by (simp add: ux_def uy_def)
  have uxl: "- 1074 \<le> ux" "ilog2 x - 52 \<le> ux" by (simp_all add: ux_def ulp_exp_def)
  have uy: "uy = ilog2 y - 52" using lt uxl by (simp add: uy_def ulp_exp_def)
  have lg: "ilog2 x + 1 \<le> ilog2 y" using lt uxl uy by simp
  have "x < 2 powi (ilog2 x + 1)" using ilog2_bounds[OF assms(1)] by simp
  also have "\<dots> \<le> B" unfolding B_def using lg by (intro power_int_increasing) simp_all
  finally have xB: "x \<le> B" by simp
  have By: "B \<le> y" unfolding B_def using ilog2_bounds[OF ypos] by simp
  have ex: "0 \<le> ilog2 y - ux" using lt uy by simp
  have "x / 2 powi ux \<le> B / 2 powi ux" using xB by (simp add: divide_right_mono)
  also have "B / 2 powi ux = 2 powi (ilog2 y - ux)" unfolding B_def by (simp only: div_powi)
  also have "\<dots> = real_of_int (2 ^ nat (ilog2 y - ux))" using ex by (simp only: powi_nonneg_int)
  finally have "rhe (x / 2 powi ux) \<le> 2 ^ nat (ilog2 y - ux)" by (rule rhe_le_int)
  then have "real_of_int (rhe (x / 2 powi ux)) \<le> real_of_int (2 ^ nat (ilog2 y - ux))"
    by (simp only: of_int_le_iff)
  also have "real_of_int (2 ^ nat (ilog2 y - ux)) = 2 powi (ilog2 y - ux)"
    using ex by (simp only: powi_nonneg_int)
  finally have "real_of_int (rhe (x / 2 powi ux)) * 2 powi ux \<le> 2 powi (ilog2 y - ux) * 2 powi ux"
    by (intro mult_right_mono) simp_all
  also have "2 powi (ilog2 y - ux) * 2 powi ux = B"
    unfolding B_def by (simp add: power_int_add[symmetric])
  finally have left: "round_pos x \<le> B" by (simp add: round_pos_def ux_def)
  have "B / 2 powi uy = 2 powi (ilog2 y - uy)" unfolding B_def by (simp only: div_powi)
  also have "\<dots> = 2 powi 52" by (simp add: uy)
  also have "\<dots> = real_of_int (2 ^ 52)" by simp
  finally have "real_of_int (2 ^ 52) = B / 2 powi uy" by simp
  also have "\<dots> \<le> y / 2 powi uy" using By by (simp add: divide_right_mono)
  finally have "2 ^ 52 \<le> rhe (y / 2 powi uy)" by (rule rhe_ge_int)
  then have "real_of_int (2 ^ 52) \<le> real_of_int (rhe (y / 2 powi uy))"
    by (simp only: of_int_le_iff)
  then have "real_of_int (2 ^ 52) * 2 powi uy \<le> real_of_int (rhe (y / 2 powi uy)) * 2 powi uy"
    by (intro mult_right_mono) simp_all
  moreover have "real_of_int (2 ^ 52) * 2 powi uy = B"
  proof -
    have "real_of_int (2 ^ 52) * 2 powi uy = 2 powi 52 * 2 powi uy" by simp
    also have "\<dots> = 2 powi (52 + uy)" by (simp only: powi_split)
    also have "\<dots> = B" by (simp add: B_def uy)
    finally show ?thesis .
  qed
  ultimately have "B \<le> real_of_int (rhe (y / 2 powi uy)) * 2 powi uy" by (simp only:)
  then have right: "B \<le> round_pos y" by (simp only: round_pos_def uy_def)
  from left right show ?thesis by linarith
qed

lemma double_round_zero: "double_round 0 = Num 0"
  by (simp add: double_round_def)

lemma double_round_pos_cases:
  assumes "0 < x"
  shows "double_round x = PInf \<and> double_max < round_pos x
       \<or> double_round x = Num (round_pos x) \<and> round_pos x \<le> double_max"
  using assms by (simp add: double_round_def)

lemma double_round_neg_cases:
  assumes "x < 0"
  shows "double_round x = NInf \<and> double_max < round_pos (- x)
       \<or> double_round x = Num (- round_pos (- x)) \<and> round_pos (- x) \<le> double_max"
  using assms by (simp add: double_round_def)

lemma double_round_fixed_pos:
  assumes "0 < y" "round_pos y = y" "y \<le> double_max"
  shows "double_round y = Num y"
  using assms by (simp add: double_round_def)

lemma double_round_fixed_neg:
  assumes "0 < y" "round_pos y = y" "y \<le> double_max"
  shows "double_round (- y) = Num (- y)"
  using assms by (simp add: double_round_def)

lemma double_round_idem:
  assumes "double_round x = Num y"
  shows "double_round y = Num y"
proof -
  consider "x = 0" | "0 < x" | "x < 0" by linarith
  then show ?thesis
  proof cases
    case 1
    then show ?thesis using assms by (simp add: double_round_def)
  next
    case 2
    then have y: "y = round_pos x" "round_pos x \<le> double_max"
      using double_round_pos_cases[OF 2] assms by auto
    show ?thesis
    proof (cases "y = 0")
      case True
      then show ?thesis by (simp add: double_round_zero)
    next
      case False
      then have "0 < round_pos x" using round_pos_nonneg[OF 2] y(1) by simp
      then have "round_pos (round_pos x) = round_pos x" by (rule round_pos_idem[OF 2])
      then show ?thesis using double_round_fixed_pos[of y] y \<open>0 < round_pos x\<close> by simp
    qed
  next
    case 3
    then have x: "0 < - x" by simp
    have y: "y = - round_pos (- x)" "round_pos (- x) \<le> double_max"
      using double_round_neg_cases[OF 3] assms by auto
    show ?thesis
    proof (cases "y = 0")
      case True
      then show ?thesis by (simp add: double_round_zero)
    next
      case False
      then have p: "0 < round_pos (- x)" using round_pos_nonneg[OF x] y(1) by simp
      then have "round_pos (round_pos (- x)) = round_pos (- x)" by (rule round_pos_idem[OF x])
      then show ?thesis using double_round_fixed_neg[of "round_pos (- x)"] y p by simp
    qed
  qed
qed

lemma double_round_sign_pos: "0 < x \<Longrightarrow> num_le (Num 0) (double_round x)"
  using double_round_pos_cases[of x] round_pos_nonneg[of x] by (auto simp: num_le_def)

lemma double_round_sign_neg: "x < 0 \<Longrightarrow> num_le (double_round x) (Num 0)"
  using double_round_neg_cases[of x] round_pos_nonneg[of "- x"] by (auto simp: num_le_def)

lemma num_le_trans_zero:
  "num_le a (Num 0) \<Longrightarrow> num_le (Num 0) b \<Longrightarrow> num_le a b"
  by (cases a; cases b) (auto simp: num_le_def)

lemma double_round_mono:
  assumes "x \<le> y"
  shows "num_le (double_round x) (double_round y)"
proof -
  consider "x = 0" "y = 0" | "x = 0" "0 < y" | "x < 0" "y = 0" | "x < 0" "0 < y"
    | "0 < x" "0 < y" | "x < 0" "y < 0" using assms by linarith
  then show ?thesis
  proof cases
    case 1
    then show ?thesis by (simp add: double_round_zero num_le_def)
  next
    case 2
    then show ?thesis using double_round_sign_pos[of y] by (simp add: double_round_zero)
  next
    case 3
    then show ?thesis using double_round_sign_neg[of x] by (simp add: double_round_zero)
  next
    case 4
    then show ?thesis
      using num_le_trans_zero[OF double_round_sign_neg[of x] double_round_sign_pos[of y]] by simp
  next
    case 5
    have "round_pos x \<le> round_pos y" using round_pos_mono[OF 5(1) assms] .
    then show ?thesis
      using double_round_pos_cases[OF 5(1)] double_round_pos_cases[OF 5(2)]
      by (auto simp: num_le_def)
  next
    case 6
    then have "0 < - y" "- y \<le> - x" using assms by simp_all
    then have "round_pos (- y) \<le> round_pos (- x)" by (rule round_pos_mono)
    then show ?thesis
      using double_round_neg_cases[OF 6(1)] double_round_neg_cases[OF 6(2)]
      by (auto simp: num_le_def)
  qed
qed

lemma double_round_ieee_like: "ieee_like double_round"
  unfolding ieee_like_def
  using double_round_mono double_round_zero double_round_idem by blast

lemma double_exact:
  assumes "0 < n" "n < 2 ^ 53" "- 1074 \<le> e" "real_of_int n * 2 powi e \<le> double_max"
  shows "representable double_round (real_of_int n * 2 powi e)"
    and "representable double_round (- (real_of_int n * 2 powi e))"
proof -
  have pos: "0 < real_of_int n * 2 powi e" using assms(1) by simp
  have fx: "round_pos (real_of_int n * 2 powi e) = real_of_int n * 2 powi e"
    by (rule round_pos_exact[OF assms(1-3)])
  show "representable double_round (real_of_int n * 2 powi e)"
    unfolding representable_def by (rule double_round_fixed_pos[OF pos fx assms(4)])
  show "representable double_round (- (real_of_int n * 2 powi e))"
    unfolding representable_def by (rule double_round_fixed_neg[OF pos fx assms(4)])
qed

lemma double_max_ge: "2 ^ 53 \<le> double_max"
  by (simp add: double_max_def)

lemma double_nat:
  assumes "k < 2 ^ 53"
  shows "representable double_round (real k)"
proof (cases "k = 0")
  case True
  then show ?thesis by (simp add: representable_def double_round_zero)
next
  case False
  have lt: "int k < 2 ^ 53" using assms by (metis of_nat_less_iff of_nat_numeral of_nat_power)
  then have "real_of_int (int k) < real_of_int (2 ^ 53)" by (simp only: of_int_less_iff)
  then have "real_of_int (int k) * 2 powi 0 \<le> double_max" using double_max_ge by simp
  then have "representable double_round (real_of_int (int k) * 2 powi 0)"
    using double_exact(1)[of "int k" 0] False lt by simp
  then show ?thesis by simp
qed

lemma double_min_pos: "0 < double_min"
  by (simp add: double_min_def)

lemma double_min_le_1: "double_min \<le> 1"
  unfolding double_min_def using power_int_increasing[of "- 1074" 0 "2::real"] by simp

lemma double_small:
  assumes "0 < k" "k < 2 ^ 53"
  shows "representable double_round (real k * double_min)"
    and "representable double_round (- (real k * double_min))"
proof -
  have lt: "int k < 2 ^ 53" using assms(2) by (metis of_nat_less_iff of_nat_numeral of_nat_power)
  then have "real_of_int (int k) < real_of_int (2 ^ 53)" by (simp only: of_int_less_iff)
  then have "real_of_int (int k) \<le> double_max" using double_max_ge by simp
  moreover have "real_of_int (int k) * 2 powi (- 1074) \<le> real_of_int (int k) * 1"
    using double_min_le_1 unfolding double_min_def by (intro mult_left_mono) simp_all
  ultimately have le: "real_of_int (int k) * 2 powi (- 1074) \<le> double_max" by simp
  have k: "0 < int k" using assms(1) by simp
  show "representable double_round (real k * double_min)"
    using double_exact(1)[OF k lt _ le] by (simp add: double_min_def)
  show "representable double_round (- (real k * double_min))"
    using double_exact(2)[OF k lt _ le] by (simp add: double_min_def)
qed

lemma round_pos_multiple:
  assumes "0 < a"
  shows "\<exists>k::int. round_pos a = real_of_int k * double_min"
proof -
  obtain n e where ne: "- 1074 \<le> e" "round_pos a = real_of_int n * 2 powi e"
    using round_pos_form[OF assms] by blast
  have ex: "0 \<le> e + 1074" using ne(1) by simp
  have "(2::real) powi e = 2 powi ((e + 1074) + (- 1074))" by simp
  also have "\<dots> = 2 powi (e + 1074) * 2 powi (- 1074)" by (simp only: powi_split)
  also have "\<dots> = real_of_int (2 ^ nat (e + 1074)) * double_min"
    using ex by (simp only: powi_nonneg_int double_min_def)
  finally have "round_pos a = real_of_int (n * 2 ^ nat (e + 1074)) * double_min"
    using ne(2) by simp
  then show ?thesis by blast
qed

lemma representable_multiple:
  assumes "representable double_round x"
  shows "\<exists>k::int. x = real_of_int k * double_min"
proof -
  have dr: "double_round x = Num x" using assms by (simp add: representable_def)
  consider "x = 0" | "0 < x" | "x < 0" by linarith
  then show ?thesis
  proof cases
    case 1
    then have "x = real_of_int 0 * double_min" by simp
    then show ?thesis by blast
  next
    case 2
    then have "x = round_pos x" using double_round_pos_cases[OF 2] dr by auto
    then show ?thesis using round_pos_multiple[OF 2] by metis
  next
    case 3
    then have x: "0 < - x" by simp
    have "x = - round_pos (- x)" using double_round_neg_cases[OF 3] dr by auto
    moreover obtain k where "round_pos (- x) = real_of_int k * double_min"
      using round_pos_multiple[OF x] by blast
    ultimately have "x = real_of_int (- k) * double_min" by simp
    then show ?thesis by blast
  qed
qed

lemma double_spacing:
  assumes "representable double_round x" "representable double_round y" "x < y"
  shows "double_min \<le> y - x"
proof -
  obtain j where j: "x = real_of_int j * double_min" using representable_multiple[OF assms(1)] by blast
  obtain k where k: "y = real_of_int k * double_min" using representable_multiple[OF assms(2)] by blast
  have "real_of_int j * double_min < real_of_int k * double_min" using assms(3) j k by simp
  then have "real_of_int j < real_of_int k" using double_min_pos by (simp add: mult_less_cancel_right)
  then have "j + 1 \<le> k" by simp
  then have "real_of_int (j + 1) \<le> real_of_int k" by (simp only: of_int_le_iff)
  then have "real_of_int (j + 1) * double_min \<le> real_of_int k * double_min"
    using double_min_pos by (intro mult_right_mono) simp_all
  then show ?thesis unfolding j k by (simp add: algebra_simps)
qed

lemma double_grid:
  assumes "n < 2 ^ 53"
  shows "grid double_round double_min n"
proof -
  have a: "representable double_round (- double_min)"
    using double_small(2)[of 1] by simp
  have b: "\<forall>k\<le>n. representable double_round (real k * double_min)"
  proof (intro allI impI)
    fix k assume "k \<le> n"
    then have k: "k < 2 ^ 53" using assms by simp
    show "representable double_round (real k * double_min)"
    proof (cases "k = 0")
      case True
      then show ?thesis by (simp add: representable_def double_round_zero)
    next
      case False
      then show ?thesis using double_small(1)[of k] k by simp
    qed
  qed
  show ?thesis unfolding grid_def using double_min_pos a b double_spacing by blast
qed

lemma double_1: "representable double_round 1"
  using double_nat[of 1] by simp

lemma double_100: "representable double_round 100"
  using double_nat[of 100] by simp

section \<open>The indicators under a rounding\<close>

lemma nonneg_iff: "nonneg n \<longleftrightarrow> (\<exists>r\<ge>0. n = Num r) \<or> n = PInf"
  by (cases n) (auto simp: nonneg_def num_le_def)

lemma fl_not_NaN: "ieee_like fl \<Longrightarrow> fl x \<noteq> NaN"
  unfolding ieee_like_def num_le_def by (metis order_refl)

lemma fl_mono: "ieee_like fl \<Longrightarrow> x \<le> y \<Longrightarrow> num_le (fl x) (fl y)"
  unfolding ieee_like_def by blast

lemma fl_zero: "ieee_like fl \<Longrightarrow> fl 0 = Num 0"
  unfolding ieee_like_def by blast

lemma fl_idem: "ieee_like fl \<Longrightarrow> fl x = Num y \<Longrightarrow> fl y = Num y"
  unfolding ieee_like_def by blast

lemma fl_nonneg: "ieee_like fl \<Longrightarrow> 0 \<le> x \<Longrightarrow> nonneg (fl x)"
  using fl_mono[of fl 0 x] by (simp add: nonneg_def fl_zero)

lemma fl_nonpos: "ieee_like fl \<Longrightarrow> x \<le> 0 \<Longrightarrow> num_le (fl x) (Num 0)"
  using fl_mono[of fl x 0] by (simp add: fl_zero)

lemma fl_ge: "ieee_like fl \<Longrightarrow> representable fl c \<Longrightarrow> c \<le> x \<Longrightarrow> num_le (Num c) (fl x)"
  using fl_mono[of fl c x] by (simp add: representable_def)

lemma fl_le: "ieee_like fl \<Longrightarrow> representable fl c \<Longrightarrow> x \<le> c \<Longrightarrow> num_le (fl x) (Num c)"
  using fl_mono[of fl x c] by (simp add: representable_def)

lemma num_le_Num: "num_le (Num a) n \<longleftrightarrow> (\<exists>r\<ge>a. n = Num r) \<or> n = PInf"
  by (cases n) (auto simp: num_le_def)

lemma num_le_Num2: "num_le n (Num a) \<longleftrightarrow> (\<exists>r\<le>a. n = Num r) \<or> n = NInf"
  by (cases n) (auto simp: num_le_def)

lemma nonneg_PInf [simp]: "nonneg PInf"
  by (simp add: nonneg_def num_le_def)

lemma nonneg_Num [simp]: "nonneg (Num r) \<longleftrightarrow> 0 \<le> r"
  by (auto simp: nonneg_def num_le_def)

lemma not_nonneg_NaN [simp]: "\<not> nonneg NaN" "\<not> nonneg NInf"
  by (simp_all add: nonneg_def num_le_def)

lemma add_nonneg: "ieee_like fl \<Longrightarrow> nonneg a \<Longrightarrow> nonneg b \<Longrightarrow> nonneg (fl_add fl a b)"
  by (cases a; cases b) (simp_all add: fl_add_def fl_nonneg)

text \<open>a number below zero: finite negative or minus infinity\<close>

lemma sub_negative:
  "ieee_like fl \<Longrightarrow> nonneg l \<Longrightarrow> c \<noteq> NaN \<Longrightarrow> \<not> num_ge c (Num 0) \<Longrightarrow> nonneg (fl_sub fl l c)"
  by (cases l; cases c) (simp_all add: fl_sub_def num_sub_def num_ge_def num_le_def fl_nonneg)

lemma div_nonneg:
  "ieee_like fl \<Longrightarrow> nonneg a \<Longrightarrow> 0 < p \<Longrightarrow> nonneg (fl_div fl a (Num p))"
  by (cases a) (simp_all add: fl_div_def fl_nonneg signed_inf_def)

lemma change_not_NaN: "ieee_like fl \<Longrightarrow> fl_sub fl (Num a) (Num b) \<noteq> NaN"
  by (simp add: fl_sub_def num_sub_def fl_not_NaN)

lemma rsi_loop_fl_nonneg:
  assumes "ieee_like fl" "nonneg g" "nonneg l"
  shows "nonneg (fst (rsi_loop_fl fl prices p i (g, l)))
       \<and> nonneg (snd (rsi_loop_fl fl prices p i (g, l)))"
  using assms(2,3)
proof (induction "p + 1 - i" arbitrary: i g l)
  case 0
  then have "\<not> i \<le> p" by simp
  with 0 show ?case by (simp add: rsi_loop_fl.simps)
next
  case (Suc n)
  then have le: "i \<le> p" by simp
  define c where "c = fl_sub fl (Num (prices ! i)) (Num (prices ! (i - 1)))"
  have c: "c \<noteq> NaN" unfolding c_def using assms(1) by (rule change_not_NaN)
  have step: "rsi_loop_fl fl prices p i (g, l) =
      (if num_ge c (Num 0) then rsi_loop_fl fl prices p (Suc i) (fl_add fl g c, l)
       else rsi_loop_fl fl prices p (Suc i) (g, fl_sub fl l c))"
    using le by (subst rsi_loop_fl.simps) (simp add: c_def Let_def)
  have n: "n = p + 1 - Suc i" using Suc.hyps(2) by simp
  show ?case
  proof (cases "num_ge c (Num 0)")
    case True
    then have "nonneg c" by (simp add: num_ge_def nonneg_def)
    then have "nonneg (fl_add fl g c)" using assms(1) Suc.prems(1) by (simp add: add_nonneg)
    then show ?thesis using Suc.hyps(1)[OF n _ Suc.prems(2)] True by (simp only: step if_True)
  next
    case False
    then have "nonneg (fl_sub fl l c)" using assms(1) Suc.prems(2) c by (simp add: sub_negative)
    then show ?thesis using Suc.hyps(1)[OF n Suc.prems(1)] False by (simp only: step if_False)
  qed
qed

lemma fl_between:
  assumes "ieee_like fl" "representable fl a" "representable fl b" "a \<le> x" "x \<le> b"
  shows "\<exists>y. fl x = Num y \<and> a \<le> y \<and> y \<le> b"
proof -
  have "num_le (Num a) (fl x)" using assms(1,2,4) by (rule fl_ge)
  moreover have "num_le (fl x) (Num b)" using assms(1,3,5) by (rule fl_le)
  ultimately show ?thesis by (cases "fl x") (auto simp: num_le_def)
qed

lemma representable_0: "ieee_like fl \<Longrightarrow> representable fl 0"
  by (simp add: representable_def fl_zero)

lemma rsi_from_rs:
  assumes "ieee_like fl" "representable fl 1" "representable fl 100" "nonneg rs"
  shows "\<exists>r. fl_sub fl (Num 100) (fl_div fl (Num 100) (fl_add fl (Num 1) rs)) = Num r
             \<and> 0 \<le> r \<and> r \<le> 100"
proof -
  have z: "representable fl 0" using assms(1) by (rule representable_0)
  have d: "\<exists>y. fl_div fl (Num 100) (fl_add fl (Num 1) rs) = Num y \<and> 0 \<le> y \<and> y \<le> 100"
  proof (cases rs)
    case (Num r)
    then have r: "0 \<le> r" using assms(4) by simp
    have "num_le (Num 1) (fl (1 + r))" using assms(1,2) r by (intro fl_ge) simp_all
    then consider (fin) x where "fl (1 + r) = Num x" "1 \<le> x" | (inf) "fl (1 + r) = PInf"
      by (auto simp: num_le_Num)
    then show ?thesis
    proof cases
      case fin
      have "0 \<le> 100 / x" "100 / x \<le> 100" using fin(2) by (simp_all add: divide_le_eq)
      then have "\<exists>y. fl (100 / x) = Num y \<and> 0 \<le> y \<and> y \<le> 100"
        using assms(1,3) z by (intro fl_between) simp_all
      then show ?thesis using fin by (simp add: Num fl_add_def fl_div_def)
    next
      case inf
      then show ?thesis using assms(1) by (simp add: Num fl_add_def fl_div_def fl_zero)
    qed
  next
    case PInf
    then show ?thesis using assms(1) by (simp add: fl_add_def fl_div_def fl_zero)
  next
    case NInf
    then show ?thesis using assms(4) by simp
  next
    case NaN
    then show ?thesis using assms(4) by simp
  qed
  then obtain y where y: "fl_div fl (Num 100) (fl_add fl (Num 1) rs) = Num y" "0 \<le> y" "y \<le> 100"
    by blast
  have "\<exists>r. fl (100 - y) = Num r \<and> 0 \<le> r \<and> r \<le> 100"
    using assms(1,3) z y(2,3) by (intro fl_between) simp_all
  then show ?thesis by (simp add: y(1) fl_sub_def num_sub_def)
qed

lemma rs_nonneg:
  assumes "ieee_like fl" "nonneg ag" "nonneg al" "\<not> num_eq al (Num 0)" "\<not> (ag = PInf \<and> al = PInf)"
  shows "nonneg (fl_div fl ag al)"
proof (cases al)
  case (Num l)
  then have l: "0 < l" using assms(3,4) by (simp add: num_eq_def)
  show ?thesis using assms(1,2) l unfolding Num by (rule div_nonneg)
next
  case PInf
  then obtain g where "ag = Num g" using assms(2,5) by (cases ag) simp_all
  then show ?thesis using assms(1) by (simp add: PInf fl_div_def fl_zero)
next
  case NInf
  then show ?thesis using assms(3) by simp
next
  case NaN
  then show ?thesis using assms(3) by simp
qed

lemma rsi_both_inf:
  "fl_sub fl (Num 100) (fl_div fl (Num 100) (fl_add fl (Num 1) (fl_div fl PInf PInf))) = NaN"
  by (simp add: fl_sub_def fl_div_def fl_add_def num_sub_def)

lemma calculateRSI_fl_unfold:
  assumes "p + 1 \<le> length prices"
  shows "calculateRSI_fl fl prices p =
     (if num_eq (fl_div fl (snd (rsi_loop_fl fl prices p 1 (Num 0, Num 0))) (Num (real p))) (Num 0)
      then Val (Num 100)
      else Val (fl_sub fl (Num 100) (fl_div fl (Num 100) (fl_add fl (Num 1)
             (fl_div fl (fl_div fl (fst (rsi_loop_fl fl prices p 1 (Num 0, Num 0))) (Num (real p)))
                        (fl_div fl (snd (rsi_loop_fl fl prices p 1 (Num 0, Num 0))) (Num (real p))))))))"
proof -
  have "\<not> length prices < p + 1" using assms by simp
  then show ?thesis
    by (simp only: calculateRSI_fl_def if_False split_beta Let_def)
qed

lemma rsi_fl_range:
  assumes "ieee_like fl" "representable fl 1" "representable fl 100"
    and "0 < p" "p + 1 \<le> length prices"
  shows "(fl_div fl (fst (rsi_loop_fl fl prices p 1 (Num 0, Num 0))) (Num (real p)) = PInf
          \<and> fl_div fl (snd (rsi_loop_fl fl prices p 1 (Num 0, Num 0))) (Num (real p)) = PInf
          \<longrightarrow> calculateRSI_fl fl prices p = Val NaN)
       \<and> (\<not> (fl_div fl (fst (rsi_loop_fl fl prices p 1 (Num 0, Num 0))) (Num (real p)) = PInf
          \<and> fl_div fl (snd (rsi_loop_fl fl prices p 1 (Num 0, Num 0))) (Num (real p)) = PInf)
          \<longrightarrow> (\<exists>r. calculateRSI_fl fl prices p = Val (Num r) \<and> 0 \<le> r \<and> r \<le> 100))"
proof -
  define ag where "ag = fl_div fl (fst (rsi_loop_fl fl prices p 1 (Num 0, Num 0))) (Num (real p))"
  define al where "al = fl_div fl (snd (rsi_loop_fl fl prices p 1 (Num 0, Num 0))) (Num (real p))"
  have inv: "nonneg (fst (rsi_loop_fl fl prices p 1 (Num 0, Num 0)))
       \<and> nonneg (snd (rsi_loop_fl fl prices p 1 (Num 0, Num 0)))"
    using assms(1) by (intro rsi_loop_fl_nonneg) simp_all
  have p: "0 < real p" using assms(4) by simp
  have ag: "nonneg ag" unfolding ag_def using assms(1) inv p by (intro div_nonneg) simp_all
  have al: "nonneg al" unfolding al_def using assms(1) inv p by (intro div_nonneg) simp_all
  have unfold: "calculateRSI_fl fl prices p =
     (if num_eq al (Num 0) then Val (Num 100)
      else Val (fl_sub fl (Num 100) (fl_div fl (Num 100) (fl_add fl (Num 1) (fl_div fl ag al)))))"
    unfolding ag_def al_def using assms(5) by (rule calculateRSI_fl_unfold)
  have both: "calculateRSI_fl fl prices p = Val NaN" if "ag = PInf" "al = PInf"
    using that by (simp add: unfold num_eq_def rsi_both_inf)
  have range: "\<exists>r. calculateRSI_fl fl prices p = Val (Num r) \<and> 0 \<le> r \<and> r \<le> 100"
    if "\<not> (ag = PInf \<and> al = PInf)"
  proof (cases "num_eq al (Num 0)")
    case True
    then show ?thesis by (simp add: unfold)
  next
    case False
    have "nonneg (fl_div fl ag al)" using assms(1) ag al False that by (rule rs_nonneg)
    then have "\<exists>r. fl_sub fl (Num 100) (fl_div fl (Num 100) (fl_add fl (Num 1) (fl_div fl ag al)))
        = Num r \<and> 0 \<le> r \<and> r \<le> 100"
      using assms(1,2,3) by (intro rsi_from_rs)
    then show ?thesis using False by (simp add: unfold)
  qed
  show ?thesis using both range unfolding ag_def al_def by blast
qed

lemma rsi_loop_fl_rising:
  assumes "ieee_like fl" "\<And>j. i \<le> j \<Longrightarrow> j \<le> p \<Longrightarrow> prices ! (j - 1) \<le> prices ! j"
  shows "snd (rsi_loop_fl fl prices p i (g, l)) = l"
  using assms(2)
proof (induction "p + 1 - i" arbitrary: i g)
  case 0
  then have "\<not> i \<le> p" by simp
  then show ?case by (simp add: rsi_loop_fl.simps)
next
  case (Suc n)
  then have le: "i \<le> p" by simp
  define c where "c = fl_sub fl (Num (prices ! i)) (Num (prices ! (i - 1)))"
  have "0 \<le> prices ! i - prices ! (i - 1)" using Suc.prems[of i] le by simp
  then have "nonneg c" unfolding c_def using assms(1)
    by (simp add: fl_sub_def num_sub_def fl_nonneg)
  then have ge: "num_ge c (Num 0)" by (simp add: num_ge_def nonneg_def)
  have step: "rsi_loop_fl fl prices p i (g, l) = rsi_loop_fl fl prices p (Suc i) (fl_add fl g c, l)"
    using le ge by (subst rsi_loop_fl.simps) (simp add: c_def Let_def)
  have n: "n = p + 1 - Suc i" using Suc.hyps(2) by simp
  show ?case
    unfolding step using Suc.hyps(1)[OF n] Suc.prems by simp
qed

lemma rsi_fl_increasing:
  assumes "ieee_like fl" "0 < p" "p + 1 \<le> length prices" "sorted_wrt (<) prices"
  shows "calculateRSI_fl fl prices p = Val (Num 100)"
proof -
  have rise: "prices ! (j - 1) \<le> prices ! j" if "1 \<le> j" "j \<le> p" for j
  proof -
    have "j - 1 < j" "j < length prices" using that assms(3) by simp_all
    then show ?thesis using assms(4) by (simp add: sorted_wrt_iff_nth_less less_imp_le)
  qed
  have "snd (rsi_loop_fl fl prices p 1 (Num 0, Num 0)) = Num 0"
    using assms(1) rise by (rule rsi_loop_fl_rising)
  then have "fl_div fl (snd (rsi_loop_fl fl prices p 1 (Num 0, Num 0))) (Num (real p)) = Num 0"
    using assms(1,2) by (simp add: fl_div_def fl_zero)
  then show ?thesis using assms(3) by (simp add: calculateRSI_fl_unfold num_eq_def)
qed

lemma rsi_loop_fl_falling_gains:
  assumes "ieee_like fl" "\<And>j. i \<le> j \<Longrightarrow> j \<le> p \<Longrightarrow> prices ! j \<le> prices ! (j - 1)"
  shows "fst (rsi_loop_fl fl prices p i (Num 0, l)) = Num 0"
  using assms(2)
proof (induction "p + 1 - i" arbitrary: i l)
  case 0
  then have "\<not> i \<le> p" by simp
  then show ?case by (simp add: rsi_loop_fl.simps)
next
  case (Suc n)
  then have le: "i \<le> p" by simp
  define c where "c = fl_sub fl (Num (prices ! i)) (Num (prices ! (i - 1)))"
  have "prices ! i - prices ! (i - 1) \<le> 0" using Suc.prems[of i] le by simp
  then have c0: "num_le c (Num 0)" unfolding c_def using assms(1)
    by (simp add: fl_sub_def num_sub_def fl_nonpos)
  have n: "n = p + 1 - Suc i" using Suc.hyps(2) by simp
  have step: "rsi_loop_fl fl prices p i (Num 0, l) =
      (if num_ge c (Num 0) then rsi_loop_fl fl prices p (Suc i) (fl_add fl (Num 0) c, l)
       else rsi_loop_fl fl prices p (Suc i) (Num 0, fl_sub fl l c))"
    using le by (subst rsi_loop_fl.simps) (simp add: c_def Let_def)
  show ?case
  proof (cases "num_ge c (Num 0)")
    case True
    with c0 have "c = Num 0" by (cases c) (auto simp: num_ge_def num_le_def)
    then have "fl_add fl (Num 0) c = Num 0" using assms(1) by (simp add: fl_add_def fl_zero)
    then show ?thesis using True Suc.hyps(1)[OF n] Suc.prems by (simp add: step)
  next
    case False
    then show ?thesis using Suc.hyps(1)[OF n] Suc.prems by (simp add: step)
  qed
qed

lemma grid_step:
  assumes "ieee_like fl" "grid fl m n" "representable fl a" "representable fl b" "a < b"
  shows "num_le (fl_sub fl (Num a) (Num b)) (Num (- m))"
proof -
  have "m \<le> b - a" using assms(2,3,4,5) unfolding grid_def by blast
  then have "a - b \<le> - m" by simp
  moreover have "representable fl (- m)" using assms(2) unfolding grid_def by blast
  ultimately have "num_le (fl (a - b)) (Num (- m))" using assms(1) by (intro fl_le)
  then show ?thesis by (simp add: fl_sub_def num_sub_def)
qed

lemma rsi_loop_fl_falling_losses:
  assumes "ieee_like fl" "grid fl m n" "\<forall>x\<in>set prices. representable fl x"
    and "p < length prices" "1 \<le> i"
    and "\<And>j. i \<le> j \<Longrightarrow> j \<le> p \<Longrightarrow> prices ! j < prices ! (j - 1)"
    and "num_le (Num (real k * m)) l" "k + (p + 1 - i) \<le> n"
  shows "num_le (Num (real (k + (p + 1 - i)) * m)) (snd (rsi_loop_fl fl prices p i (g, l)))"
  using assms(5-8)
proof (induction "p + 1 - i" arbitrary: i k l g)
  case 0
  then have "\<not> i \<le> p" "p + 1 - i = 0" by simp_all
  with 0 show ?case by (simp add: rsi_loop_fl.simps)
next
  case (Suc d)
  then have le: "i \<le> p" by simp
  have m: "0 < m" using assms(2) unfolding grid_def by blast
  define c where "c = fl_sub fl (Num (prices ! i)) (Num (prices ! (i - 1)))"
  have ra: "representable fl (prices ! i)" "representable fl (prices ! (i - 1))"
    using assms(3,4) le by simp_all
  have lt: "prices ! i < prices ! (i - 1)" using Suc.prems(2)[of i] le by simp
  have cm: "num_le c (Num (- m))" unfolding c_def using assms(1,2) ra lt by (rule grid_step)
  then have neg: "\<not> num_ge c (Num 0)" using m by (cases c) (auto simp: num_ge_def num_le_def)
  have step: "rsi_loop_fl fl prices p i (g, l) = rsi_loop_fl fl prices p (Suc i) (g, fl_sub fl l c)"
    using le neg by (subst rsi_loop_fl.simps) (simp add: c_def Let_def)
  have k1: "Suc k \<le> n" using Suc.prems(4) le by simp
  then have rep: "representable fl (real (Suc k) * m)" using assms(2) unfolding grid_def by blast
  have l': "num_le (Num (real (Suc k) * m)) (fl_sub fl l c)"
  proof (cases l)
    case (Num x)
    then have x: "real k * m \<le> x" using Suc.prems(3) by (simp add: num_le_def)
    show ?thesis
    proof (cases c)
      case (Num r)
      then have "r \<le> - m" using cm by (simp add: num_le_def)
      then have "real (Suc k) * m \<le> x - r" using x by (simp add: algebra_simps)
      then have "num_le (Num (real (Suc k) * m)) (fl (x - r))"
        using assms(1) rep by (intro fl_ge)
      then show ?thesis using Num \<open>l = Num x\<close> by (simp add: fl_sub_def num_sub_def)
    next
      case NInf
      then show ?thesis using \<open>l = Num x\<close> by (simp add: fl_sub_def num_sub_def num_le_def)
    next
      case PInf
      then show ?thesis using cm by (simp add: num_le_def)
    next
      case NaN
      then show ?thesis using cm by (simp add: num_le_def)
    qed
  next
    case PInf
    then show ?thesis using cm by (cases c) (simp_all add: fl_sub_def num_sub_def num_le_def)
  next
    case NInf
    then show ?thesis using Suc.prems(3) by (simp add: num_le_def)
  next
    case NaN
    then show ?thesis using Suc.prems(3) by (simp add: num_le_def)
  qed
  have d: "d = p + 1 - Suc i" using Suc.hyps(2) by simp
  have "num_le (Num (real (Suc k + (p + 1 - Suc i)) * m))
      (snd (rsi_loop_fl fl prices p (Suc i) (g, fl_sub fl l c)))"
    using Suc.prems(2,4) le by (intro Suc.hyps(1)[OF d _ _ l']) simp_all
  moreover have "Suc k + (p + 1 - Suc i) = k + (p + 1 - i)" using le by simp
  ultimately show ?case by (simp only: step)
qed

lemma rsi_fl_decreasing:
  assumes "ieee_like fl" "representable fl 1" "representable fl 100" "grid fl m p"
    and "\<forall>x\<in>set prices. representable fl x"
    and "0 < p" "p + 1 \<le> length prices" "sorted_wrt (>) prices"
  shows "calculateRSI_fl fl prices p = Val (Num 0)"
proof -
  have fall: "prices ! j < prices ! (j - 1)" if "1 \<le> j" "j \<le> p" for j
  proof -
    have "j - 1 < j" "j < length prices" using that assms(7) by simp_all
    then show ?thesis using assms(8) by (simp add: sorted_wrt_iff_nth_less)
  qed
  have m: "0 < m" and rm: "representable fl m"
    using assms(4,6) unfolding grid_def by (blast, metis One_nat_def Suc_leI mult_1 of_nat_1)
  define g where "g = fst (rsi_loop_fl fl prices p 1 (Num 0, Num 0))"
  define l where "l = snd (rsi_loop_fl fl prices p 1 (Num 0, Num 0))"
  have fall_le: "prices ! j \<le> prices ! (j - 1)" if "1 \<le> j" "j \<le> p" for j
    using fall[OF that] by simp
  have g: "g = Num 0"
    unfolding g_def using assms(1) fall_le by (rule rsi_loop_fl_falling_gains)
  have "num_le (Num (real (0 + (p + 1 - 1)) * m)) l"
    unfolding l_def using assms(1,4,5,7) fall
    by (intro rsi_loop_fl_falling_losses[where n = p]) (simp_all add: num_le_def)
  then have l: "num_le (Num (real p * m)) l" by simp
  define al where "al = fl_div fl l (Num (real p))"
  have al: "(\<exists>y. al = Num y \<and> 0 < y) \<or> al = PInf"
  proof (cases l)
    case (Num x)
    then have "real p * m \<le> x" using l by (simp add: num_le_def)
    then have "m \<le> x / real p" using assms(6) by (simp add: pos_le_divide_eq mult.commute)
    then have "num_le (Num m) (fl (x / real p))" using assms(1) rm by (intro fl_ge)
    then show ?thesis using Num assms(6) m unfolding al_def
      by (cases "fl (x / real p)") (auto simp: fl_div_def num_le_def)
  next
    case PInf
    then show ?thesis using assms(6) by (simp add: al_def fl_div_def signed_inf_def)
  next
    case NInf
    then show ?thesis using l by (simp add: num_le_def)
  next
    case NaN
    then show ?thesis using l by (simp add: num_le_def)
  qed
  then have ne: "\<not> num_eq al (Num 0)" by (auto simp: num_eq_def)
  have ag: "fl_div fl g (Num (real p)) = Num 0"
    using assms(1,6) by (simp add: g fl_div_def fl_zero)
  have rs: "fl_div fl (Num 0) al = Num 0"
    using al assms(1) by (auto simp: fl_div_def fl_zero)
  have one: "fl 1 = Num 1" "fl 100 = Num 100" using assms(2,3) by (simp_all add: representable_def)
  have tail: "fl_sub fl (Num 100) (fl_div fl (Num 100) (fl_add fl (Num 1) (Num 0))) = Num 0"
    using assms(1) by (simp add: fl_sub_def fl_div_def fl_add_def num_sub_def one fl_zero)
  have unfold: "calculateRSI_fl fl prices p =
     (if num_eq al (Num 0) then Val (Num 100)
      else Val (fl_sub fl (Num 100) (fl_div fl (Num 100) (fl_add fl (Num 1)
             (fl_div fl (fl_div fl g (Num (real p))) al)))))"
    unfolding al_def g_def l_def using assms(7) by (rule calculateRSI_fl_unfold)
  show ?thesis by (simp only: unfold ne if_False ag rs tail)
qed

lemma pow2_nonneg: "ieee_like fl \<Longrightarrow> d \<noteq> NaN \<Longrightarrow> nonneg (fl_pow2 fl d)"
  by (cases d) (simp_all add: fl_pow2_def fl_nonneg)

lemma bb_loop_fl_nonneg:
  assumes "ieee_like fl" "nonneg acc"
  shows "nonneg (bb_loop_fl fl prices (Num mu) i acc)"
  using assms(2)
proof (induction "length prices - i" arbitrary: i acc)
  case 0
  then show ?case by (simp add: bb_loop_fl.simps)
next
  case (Suc n)
  then have lt: "i < length prices" by simp
  have "nonneg (fl_pow2 fl (fl_sub fl (Num (prices ! i)) (Num mu)))"
    using assms(1) by (intro pow2_nonneg change_not_NaN)
  then have acc': "nonneg (fl_add fl acc (fl_pow2 fl (fl_sub fl (Num (prices ! i)) (Num mu))))"
    using assms(1) Suc.prems by (intro add_nonneg)
  have n: "n = length prices - Suc i" using Suc.hyps(2) by simp
  show ?case
    using lt Suc.hyps(1)[OF n acc'] by (subst bb_loop_fl.simps) simp
qed

lemma sqrt_nonneg: "ieee_like fl \<Longrightarrow> nonneg a \<Longrightarrow> nonneg (fl_sqrt fl a)"
  by (cases a) (simp_all add: fl_sqrt_def fl_nonneg)

lemma mul_pos_nonneg: "ieee_like fl \<Longrightarrow> 0 < c \<Longrightarrow> nonneg a \<Longrightarrow> nonneg (fl_mul fl (Num c) a)"
  by (cases a) (simp_all add: fl_mul_def fl_nonneg signed_inf_def)

lemma add_above:
  assumes "ieee_like fl" "representable fl mu" "nonneg t"
  shows "num_le (Num mu) (fl_add fl (Num mu) t)"
proof (cases t)
  case (Num r)
  then have "mu \<le> mu + r" using assms(3) by simp
  then have "num_le (Num mu) (fl (mu + r))" using assms(1,2) by (intro fl_ge)
  then show ?thesis by (simp add: Num fl_add_def)
qed (use assms(3) in \<open>simp_all add: fl_add_def num_le_def\<close>)

lemma sub_below:
  assumes "ieee_like fl" "representable fl mu" "nonneg t"
  shows "num_le (fl_sub fl (Num mu) t) (Num mu)"
proof (cases t)
  case (Num r)
  then have "mu - r \<le> mu" using assms(3) by simp
  then have "num_le (fl (mu - r)) (Num mu)" using assms(1,2) by (intro fl_le)
  then show ?thesis by (simp add: Num fl_sub_def num_sub_def)
qed (use assms(3) in \<open>simp_all add: fl_sub_def num_sub_def num_le_def\<close>)

lemma ma_fl_finite_representable:
  assumes "ieee_like fl" "0 < p" "calculateMA_fl fl prices p = Val (Num mu)"
  shows "representable fl mu"
proof -
  define s where "s = foldl (\<lambda>acc price. fl_add fl acc (Num price)) (Num 0) (slice_last prices p)"
  have "\<not> length prices < p" using assms(3) by (auto simp: calculateMA_fl_def)
  then have "fl_div fl s (Num (real p)) = Num mu"
    using assms(3) by (simp add: calculateMA_fl_def s_def Let_def)
  then show ?thesis using assms(1,2)
    by (cases s) (auto simp: fl_div_def signed_inf_def representable_def dest: fl_idem split: if_splits)
qed

lemma bollinger_fl_ordered:
  assumes "ieee_like fl" "0 < p" "p \<le> length prices" "0 < sd"
    and "calculateMA_fl fl prices p = Val (Num mu)"
  shows "\<exists>b. calculateBollingerBands_fl fl prices p sd = Some b
           \<and> middle b = Val (Num mu)
           \<and> num_le (lower b) (Num mu) \<and> num_le (Num mu) (upper b)"
proof -
  have rep: "representable fl mu" using assms(1,2,5) by (rule ma_fl_finite_representable)
  define t where "t = fl_mul fl (Num sd)
      (fl_sqrt fl (fl_div fl (bb_loop_fl fl prices (Num mu) (length prices - p) (Num 0))
         (Num (real p))))"
  have "nonneg (bb_loop_fl fl prices (Num mu) (length prices - p) (Num 0))"
    using assms(1) by (intro bb_loop_fl_nonneg) simp_all
  then have "nonneg (fl_div fl (bb_loop_fl fl prices (Num mu) (length prices - p) (Num 0))
      (Num (real p)))"
    using assms(1,2) by (intro div_nonneg) simp_all
  then have t: "nonneg t" unfolding t_def using assms(1,4) by (intro mul_pos_nonneg sqrt_nonneg)
  have g: "\<not> length prices < p" using assms(3) by simp
  have "calculateBollingerBands_fl fl prices p sd =
      Some \<lparr>upper = fl_add fl (Num mu) t, middle = Val (Num mu), lower = fl_sub fl (Num mu) t\<rparr>"
    by (simp only: calculateBollingerBands_fl_def g if_False Let_def assms(5) to_number.simps t_def)
  then show ?thesis
    using add_above[OF assms(1) rep t] sub_below[OF assms(1) rep t] by simp
qed

lemma foldl_fl_replicate:
  assumes "\<forall>k\<le>p. representable fl (real k * v)" "k + j \<le> p"
  shows "foldl (\<lambda>acc price. fl_add fl acc (Num price)) (Num (real k * v)) (replicate j v) =
     Num (real (k + j) * v)"
  using assms(2)
proof (induction j arbitrary: k)
  case 0
  then show ?case by simp
next
  case (Suc j)
  have "Suc k \<le> p" using Suc.prems by simp
  then have "fl (real (Suc k) * v) = Num (real (Suc k) * v)"
    using assms(1) unfolding representable_def by blast
  then have "fl_add fl (Num (real k * v)) (Num v) = Num (real (Suc k) * v)"
    by (simp add: fl_add_def algebra_simps)
  moreover have "foldl (\<lambda>acc price. fl_add fl acc (Num price)) (Num (real (Suc k) * v))
      (replicate j v) = Num (real (Suc k + j) * v)"
    using Suc.prems by (intro Suc.IH) simp
  ultimately show ?case by simp
qed

lemma ma_fl_replicate:
  assumes "\<forall>k\<le>p. representable fl (real k * v)" "0 < p" "p \<le> n"
  shows "calculateMA_fl fl (replicate n v) p = Val (Num v)"
proof -
  have "n - (n - p) = p" using assms(3) by simp
  then have sl: "slice_last (replicate n v) p = replicate p v"
    using assms(2) by (simp add: slice_last_def)
  have "foldl (\<lambda>acc price. fl_add fl acc (Num price)) (Num (real 0 * v)) (replicate p v) =
     Num (real (0 + p) * v)"
    using assms(1) by (rule foldl_fl_replicate) simp
  then have sum: "foldl (\<lambda>acc price. fl_add fl acc (Num price)) (Num 0) (replicate p v) =
     Num (real p * v)" by simp
  have "representable fl (real 1 * v)" using assms(1,2) by (metis One_nat_def Suc_leI)
  then have v: "fl v = Num v" by (simp add: representable_def)
  show ?thesis using assms(2,3) by (simp add: calculateMA_fl_def sl sum fl_div_def v)
qed

lemma bb_loop_fl_replicate:
  assumes "ieee_like fl"
  shows "bb_loop_fl fl (replicate n v) (Num v) i (Num 0) = Num 0"
proof (induction "n - i" arbitrary: i)
  case 0
  then show ?case by (simp add: bb_loop_fl.simps)
next
  case (Suc d)
  then have lt: "i < n" by simp
  have zt: "fl_add fl (Num 0) (fl_pow2 fl (fl_sub fl (Num v) (Num v))) = Num 0"
    using assms by (simp add: fl_add_def fl_pow2_def fl_sub_def num_sub_def fl_zero)
  have d: "d = n - Suc i" using Suc.hyps(2) by simp
  show ?case
    using lt Suc.hyps(1)[OF d] by (subst bb_loop_fl.simps) (simp add: zt)
qed

lemma bollinger_fl_identical:
  assumes "ieee_like fl" "\<forall>k\<le>p. representable fl (real k * v)" "0 < p" "p \<le> n"
  shows "calculateBollingerBands_fl fl (replicate n v) p sd =
     Some \<lparr>upper = Num v, middle = Val (Num v), lower = Num v\<rparr>"
proof -
  have ma: "calculateMA_fl fl (replicate n v) p = Val (Num v)"
    using assms(2,3,4) by (rule ma_fl_replicate)
  have "representable fl (real 1 * v)" using assms(2,3) by (metis One_nat_def Suc_leI)
  then have v: "fl v = Num v" by (simp add: representable_def)
  have loop: "bb_loop_fl fl (replicate n v) (Num v) (n - p) (Num 0) = Num 0"
    using assms(1) by (rule bb_loop_fl_replicate)
  have g: "\<not> n < p" using assms(4) by simp
  have "calculateBollingerBands_fl fl (replicate n v) p sd =
      Some \<lparr>upper = fl_add fl (Num v) (fl_mul fl (Num sd) (fl_sqrt fl (fl_div fl (Num 0) (Num (real p))))),
            middle = Val (Num v),
            lower = fl_sub fl (Num v) (fl_mul fl (Num sd) (fl_sqrt fl (fl_div fl (Num 0) (Num (real p)))))\<rparr>"
    by (simp only: calculateBollingerBands_fl_def g if_False Let_def ma to_number.simps
        length_replicate loop)
  then show ?thesis
    using assms(1,3)
    by (simp add: fl_add_def fl_sub_def fl_mul_def fl_sqrt_def fl_div_def num_sub_def fl_zero v)
qed

lemma bb_loop_fl_PInf:
  assumes "i < length prices" "nonneg acc"
  shows "bb_loop_fl fl prices PInf i acc = PInf" "bb_loop_fl fl prices NInf i acc = PInf"
proof -
  have stay: "bb_loop_fl fl prices ma j PInf = PInf" if "ma = PInf \<or> ma = NInf" for j ma
  proof (induction "length prices - j" arbitrary: j)
    case 0
    then show ?case by (simp add: bb_loop_fl.simps)
  next
    case (Suc d)
    then have lt: "j < length prices" by simp
    have d: "d = length prices - Suc j" using Suc.hyps(2) by simp
    have "fl_add fl PInf (fl_pow2 fl (fl_sub fl (Num (prices ! j)) ma)) = PInf"
      using that by (auto simp: fl_add_def fl_pow2_def fl_sub_def num_sub_def)
    then show ?case using lt Suc.hyps(1)[OF d] by (subst bb_loop_fl.simps) simp
  qed
  have first: "fl_add fl acc (fl_pow2 fl (fl_sub fl (Num (prices ! i)) ma)) = PInf"
    if "ma = PInf \<or> ma = NInf" for ma
    using that assms(2) by (cases acc) (auto simp: fl_add_def fl_pow2_def fl_sub_def num_sub_def)
  show "bb_loop_fl fl prices PInf i acc = PInf"
    using assms(1) by (subst bb_loop_fl.simps) (simp add: first stay)
  show "bb_loop_fl fl prices NInf i acc = PInf"
    using assms(1) by (subst bb_loop_fl.simps) (simp add: first stay)
qed

lemma bollinger_fl_overflow:
  assumes "0 < p" "p \<le> length prices" "0 < sd"
  shows "calculateMA_fl fl prices p = Val PInf \<Longrightarrow>
           \<exists>b. calculateBollingerBands_fl fl prices p sd = Some b \<and> lower b = NaN"
    and "calculateMA_fl fl prices p = Val NInf \<Longrightarrow>
           \<exists>b. calculateBollingerBands_fl fl prices p sd = Some b \<and> upper b = NaN"
proof -
  have i: "length prices - p < length prices" using assms(1,2) by simp
  have g: "\<not> length prices < p" using assms(2) by simp
  have t: "fl_mul fl (Num sd) (fl_sqrt fl (fl_div fl PInf (Num (real p)))) = PInf"
    using assms(1,3) by (simp add: fl_mul_def fl_sqrt_def fl_div_def signed_inf_def)
  show "\<exists>b. calculateBollingerBands_fl fl prices p sd = Some b \<and> lower b = NaN"
    if "calculateMA_fl fl prices p = Val PInf"
    by (simp add: calculateBollingerBands_fl_def g Let_def that bb_loop_fl_PInf(1)[OF i] t
        fl_sub_def num_sub_def)
  show "\<exists>b. calculateBollingerBands_fl fl prices p sd = Some b \<and> upper b = NaN"
    if "calculateMA_fl fl prices p = Val NInf"
    by (simp add: calculateBollingerBands_fl_def g Let_def that bb_loop_fl_PInf(2)[OF i] t
        fl_add_def)
qed

section \<open>The indicators on doubles\<close>

lemma rsi_averages_fl_unfold:
  "rsi_averages_fl fl prices p =
     (fl_div fl (fst (rsi_loop_fl fl prices p 1 (Num 0, Num 0))) (Num (real p)),
      fl_div fl (snd (rsi_loop_fl fl prices p 1 (Num 0, Num 0))) (Num (real p)))"
  by (simp add: rsi_averages_fl_def case_prod_unfold Let_def)

text \<open>two rises and two falls of \<open>h\<close>, with \<open>h + h\<close> too large for a double\<close>

lemma rsi_loop_fl_alternating:
  assumes "fl 0 = Num 0" "fl h = Num h" "fl (- h) = Num (- h)" "fl (h + h) = PInf" "0 < h"
  shows "rsi_loop_fl fl [0, h, 0, h, 0] 4 1 (Num 0, Num 0) = (PInf, PInf)"
    and "rsi_loop_fl fl [h, 0, h, 0, h] 4 1 (Num 0, Num 0) = (PInf, PInf)"
  using assms
  by (simp_all add: rsi_loop_fl.simps fl_add_def fl_sub_def num_sub_def num_ge_def num_le_def)

lemma rsi_fl_alternating:
  assumes "fl 0 = Num 0" "fl h = Num h" "fl (- h) = Num (- h)" "fl (h + h) = PInf" "0 < h"
  shows "calculateRSI_fl fl [0, h, 0, h, 0] 4 = Val NaN"
  using rsi_loop_fl_alternating(1)[OF assms]
  by (simp add: calculateRSI_fl_def fl_div_def fl_add_def fl_sub_def num_sub_def num_eq_def
      signed_inf_def)

lemma rsi_averages_fl_alternating:
  assumes "fl 0 = Num 0" "fl h = Num h" "fl (- h) = Num (- h)" "fl (h + h) = PInf" "0 < h"
  shows "rsi_averages_fl fl [h, 0, h, 0, h] 4 = (PInf, PInf)"
  using rsi_loop_fl_alternating(2)[OF assms]
  by (simp add: rsi_averages_fl_def fl_div_def signed_inf_def Let_def)

lemma rsi_fl_period_0: "calculateRSI_fl fl [1] 0 = Val NaN"
  by (simp add: calculateRSI_fl_def rsi_loop_fl.simps fl_div_def fl_add_def fl_sub_def
      num_sub_def num_eq_def)

lemma double_huge:
  "double_round (2 ^ 1023) = Num (2 ^ 1023)"
  "double_round (- (2 ^ 1023)) = Num (- (2 ^ 1023))"
  "double_round (2 ^ 1023 + 2 ^ 1023) = PInf"
proof -
  have e1: "(2::real) ^ 1023 = real_of_int (2 ^ 52) * 2 powi 971" by simp
  have le: "real_of_int (2 ^ 52) * 2 powi 971 \<le> double_max" by (simp add: double_max_def)
  have r: "representable double_round (real_of_int (2 ^ 52) * 2 powi 971)"
    "representable double_round (- (real_of_int (2 ^ 52) * 2 powi 971))"
    using double_exact[of "2 ^ 52" 971, OF _ _ _ le] by simp_all
  show "double_round (2 ^ 1023) = Num (2 ^ 1023)"
    using r(1) unfolding representable_def e1[symmetric] .
  show "double_round (- (2 ^ 1023)) = Num (- (2 ^ 1023))"
    using r(2) unfolding representable_def e1[symmetric] .
  have e2: "(2::real) ^ 1023 + 2 ^ 1023 = real_of_int (2 ^ 52) * 2 powi 972" by simp
  have "round_pos (real_of_int (2 ^ 52) * 2 powi 972) = real_of_int (2 ^ 52) * 2 powi 972"
    by (rule round_pos_exact) simp_all
  then have rp: "round_pos (2 ^ 1023 + 2 ^ 1023) = 2 ^ 1023 + 2 ^ 1023"
    unfolding e2[symmetric] .
  have gt: "double_max < 2 ^ 1023 + 2 ^ 1023" by (simp add: double_max_def)
  have pos: "(0::real) < 2 ^ 1023 + 2 ^ 1023" by simp
  show "double_round (2 ^ 1023 + 2 ^ 1023) = PInf"
    using double_round_pos_cases[OF pos] gt rp by auto
qed

lemma foldl_fl_not_NaN:
  assumes "ieee_like fl" "acc \<noteq> NaN"
  shows "foldl (\<lambda>acc price. fl_add fl acc (Num price)) acc xs \<noteq> NaN"
  using assms(2)
proof (induction xs arbitrary: acc)
  case Nil
  then show ?case by simp
next
  case (Cons x xs)
  have "fl_add fl acc (Num x) \<noteq> NaN"
    using Cons.prems fl_not_NaN[OF assms(1)] by (cases acc) (simp_all add: fl_add_def)
  then show ?case using Cons.IH by simp
qed

lemma ma_fl_cases:
  assumes "ieee_like fl" "0 < p" "p \<le> length prices"
  shows "(\<exists>mu. calculateMA_fl fl prices p = Val (Num mu))
       \<or> calculateMA_fl fl prices p = Val PInf \<or> calculateMA_fl fl prices p = Val NInf"
proof -
  define s where "s = foldl (\<lambda>acc price. fl_add fl acc (Num price)) (Num 0) (slice_last prices p)"
  have ma: "calculateMA_fl fl prices p = Val (fl_div fl s (Num (real p)))"
    using assms(3) by (simp add: calculateMA_fl_def s_def Let_def)
  have s: "s \<noteq> NaN" unfolding s_def by (rule foldl_fl_not_NaN[OF assms(1)]) simp
  have "fl_div fl s (Num (real p)) \<noteq> NaN"
    using s assms(2) fl_not_NaN[OF assms(1)]
    by (cases s) (simp_all add: fl_div_def signed_inf_def)
  then show ?thesis unfolding ma by (cases "fl_div fl s (Num (real p))") simp_all
qed

lemma bollinger_fl_middle:
  assumes "p \<le> length prices"
  shows "\<exists>b. calculateBollingerBands_fl fl prices p sd = Some b
           \<and> middle b = calculateMA_fl fl prices p"
  using assms by (simp add: calculateBollingerBands_fl_def Let_def)

lemma double_numeral:
  "numeral k < (2::nat) ^ 53 \<Longrightarrow> representable double_round (numeral k)"
  using double_nat[of "numeral k"] by simp

lemma double_half: "double_round (1 / 2) = Num (1 / 2)"
proof -
  have "real_of_int 1 * 2 powi (- 1) \<le> double_max" by (simp add: double_max_def)
  then have "representable double_round (real_of_int 1 * 2 powi (- 1))"
    using double_exact(1)[of 1 "- 1"] by simp
  then show ?thesis by (simp add: representable_def)
qed

lemma rsi_averages_fl_mixed:
  assumes "fl 1 = Num 1" "fl (- 1) = Num (- 1)" "fl (1 / 2) = Num (1 / 2)"
  shows "rsi_averages_fl fl [1, 2, 1] 2 = (Num (1 / 2), Num (1 / 2))"
  using assms
  by (simp add: rsi_averages_fl_def rsi_loop_fl.simps fl_add_def fl_sub_def fl_div_def
      num_sub_def num_ge_def num_le_def Let_def)

lemma ma_fl_pair:
  assumes "fl 1 = Num 1" "fl 4 = Num 4" "fl 2 = Num 2"
  shows "calculateMA_fl fl [1, 3] 2 = Val (Num 2)"
  using assms by (simp add: calculateMA_fl_def slice_last_def fl_add_def fl_div_def)

lemma ma_fl_overflow_up:
  assumes "fl h = Num h" "fl (h + h) = PInf"
  shows "calculateMA_fl fl [0, h, h] 2 = Val PInf"
  using assms by (simp add: calculateMA_fl_def slice_last_def fl_add_def fl_div_def signed_inf_def)

lemma ma_fl_overflow_down:
  assumes "fl (- h) = Num (- h)" "fl (- h - h) = NInf"
  shows "calculateMA_fl fl [- h, - h] 2 = Val NInf"
  using assms by (simp add: calculateMA_fl_def slice_last_def fl_add_def fl_div_def signed_inf_def)

lemma bollinger_fl_overflow_pair:
  assumes "fl h = Num h" "fl (h + h) = PInf"
  shows "calculateBollingerBands_fl fl [h, h] 2 2 = Some \<lparr>upper = PInf, middle = Val PInf, lower = NaN\<rparr>"
  using assms
  by (simp add: calculateBollingerBands_fl_def calculateMA_fl_def slice_last_def bb_loop_fl.simps
      fl_add_def fl_sub_def fl_div_def fl_mul_def fl_sqrt_def fl_pow2_def num_sub_def
      signed_inf_def)

lemma bollinger_fl_period_0:
  assumes "fl 1 = Num 1"
  shows "calculateBollingerBands_fl fl [1] 0 2 = Some \<lparr>upper = NaN, middle = Val PInf, lower = NaN\<rparr>"
  using assms
  by (simp add: calculateBollingerBands_fl_def calculateMA_fl_def slice_last_def bb_loop_fl.simps
      fl_add_def fl_sub_def fl_div_def fl_mul_def fl_sqrt_def fl_pow2_def num_sub_def
      signed_inf_def)

lemma double_huge_neg: "double_round (- (2 ^ 1023) - 2 ^ 1023) = NInf"
proof -
  have e2: "(2::real) ^ 1023 + 2 ^ 1023 = real_of_int (2 ^ 52) * 2 powi 972" by simp
  have "round_pos (real_of_int (2 ^ 52) * 2 powi 972) = real_of_int (2 ^ 52) * 2 powi 972"
    by (rule round_pos_exact) simp_all
  then have rp: "round_pos (2 ^ 1023 + 2 ^ 1023) = 2 ^ 1023 + 2 ^ 1023"
    unfolding e2[symmetric] .
  have gt: "double_max < 2 ^ 1023 + 2 ^ 1023" by (simp add: double_max_def)
  have neg: "- (2 ^ 1023) - 2 ^ 1023 < (0::real)" by simp
  have m: "- (- (2 ^ 1023) - 2 ^ 1023) = (2::real) ^ 1023 + 2 ^ 1023" by simp
  show ?thesis
    using double_round_neg_cases[OF neg] gt rp unfolding m by auto
qed

lemma double_multiples_of_5: "\<forall>k\<le>20. representable double_round (real k * 5)"
proof (intro allI impI)
  fix k :: nat assume "k \<le> 20"
  then have "k * 5 < 2 ^ 53" by simp
  then have "representable double_round (real (k * 5))" by (rule double_nat)
  then show "representable double_round (real k * 5)" by simp
qed

section \<open>The exact indicators are the rounded ones without rounding\<close>

lemma calculateRSI_fl_averages:
  assumes "period + 1 \<le> length prices"
  shows "calculateRSI_fl fl prices period =
     (let (avgGain, avgLoss) = rsi_averages_fl fl prices period
      in if num_eq avgLoss (Num 0) then Val (Num 100)
         else Val (fl_sub fl (Num 100) (fl_div fl (Num 100)
                (fl_add fl (Num 1) (fl_div fl avgGain avgLoss)))))"
  using assms
  by (simp add: calculateRSI_fl_def rsi_averages_fl_def Let_def case_prod_unfold)

lemma rounded_exact: "rounded Num n = n"
  by (cases n) simp_all

lemma exact_ops:
  "fl_add Num = num_add" "fl_sub Num = num_sub" "fl_mul Num = num_mul" "fl_div Num = num_div"
  "fl_sqrt Num = num_sqrt" "fl_pow2 Num = num_pow2"
  by (simp_all add: fun_eq_iff fl_add_def fl_sub_def fl_mul_def fl_div_def fl_sqrt_def
      fl_pow2_def rounded_exact)

lemma foldl_exact:
  "foldl (\<lambda>acc price. num_add acc (Num price)) (Num a) xs = Num (foldl (\<lambda>acc price. acc + price) a xs)"
  by (induction xs arbitrary: a) simp_all

lemma calculateMA_exact: "calculateMA_fl Num prices period = calculateMA prices period"
  by (simp add: calculateMA_fl_def calculateMA_def exact_ops foldl_exact)

lemma rsi_loop_exact:
  "rsi_loop_fl Num prices period i (Num g, Num l) =
     (Num (fst (rsi_loop prices period i (g, l))), Num (snd (rsi_loop prices period i (g, l))))"
proof (induction "period + 1 - i" arbitrary: i g l)
  case 0
  then have "\<not> i \<le> period" by simp
  then show ?case by (simp add: rsi_loop_fl.simps rsi_loop.simps)
next
  case (Suc n)
  then have i: "i \<le> period" and n: "n = period + 1 - (i + 1)" by simp_all
  show ?case
    apply (subst rsi_loop_fl.simps)
    apply (subst (1 2) rsi_loop.simps)
    using i Suc.hyps(1)[OF n]
    by (simp add: exact_ops num_sub_def num_ge_def num_le_def Let_def diff_diff_eq2 add_diff_eq)
qed

lemma calculateRSI_exact: "calculateRSI_fl Num prices period = calculateRSI prices period"
  using rsi_loop_exact[of prices period 1 0 0]
  by (simp add: calculateRSI_fl_def calculateRSI_def exact_ops case_prod_unfold Let_def)

lemma bb_loop_exact: "bb_loop_fl Num prices ma i acc = bb_loop prices ma i acc"
proof (induction "length prices - i" arbitrary: i acc)
  case 0
  then show ?case by (simp add: bb_loop_fl.simps bb_loop.simps)
next
  case (Suc n)
  then have i: "i < length prices" and n: "n = length prices - (i + 1)" by simp_all
  show ?case
    apply (subst bb_loop_fl.simps)
    apply (subst bb_loop.simps)
    using i Suc.hyps(1)[OF n] by (simp add: exact_ops)
qed

lemma calculateBollingerBands_exact:
  "calculateBollingerBands_fl Num prices period stdDev = calculateBollingerBands prices period stdDev"
  by (simp add: calculateBollingerBands_fl_def calculateBollingerBands_def exact_ops
      calculateMA_exact bb_loop_exact)


section \<open>The relative strength index on doubles\<close>

text \<open>
  C8, as the code has it. For a period of at least 1 and a series of at least
  \<open>period + 1\<close> doubles (an array has fewer than \<open>2\<^sup>3\<^sup>2\<close> elements), with every operation
  rounded to a double: when \<open>avgGain\<close> and \<open>avgLoss\<close> have both overflowed to
  \<open>Infinity\<close> the index is \<open>NaN\<close>, and otherwise it is a number between 0 and 100; it is
  exactly 100 when the series is strictly increasing and exactly 0 when the series is
  strictly decreasing (so for every strictly decreasing series of at least 15 elements
  with the default period 14).
\<close>

theorem rsi_double_range_and_extremes:
  assumes "0 < period" "period + 1 \<le> length prices" "length prices < 2 ^ 32"
    and "\<forall>x\<in>set prices. representable double_round x"
  shows "(rsi_averages_fl double_round prices period = (PInf, PInf)
            \<longrightarrow> calculateRSI_fl double_round prices period = Val NaN)
       \<and> (rsi_averages_fl double_round prices period \<noteq> (PInf, PInf)
            \<longrightarrow> (\<exists>r. calculateRSI_fl double_round prices period = Val (Num r)
                      \<and> 0 \<le> r \<and> r \<le> 100))
       \<and> (sorted_wrt (<) prices \<longrightarrow> calculateRSI_fl double_round prices period = Val (Num 100))
       \<and> (sorted_wrt (>) prices \<longrightarrow> calculateRSI_fl double_round prices period = Val (Num 0))"
proof -
  note ie = double_round_ieee_like
  have "period < 2 ^ 32" using assms(2,3) by simp
  also have "(2::nat) ^ 32 < 2 ^ 53" by simp
  finally have g: "grid double_round double_min period" by (rule double_grid)
  note range = rsi_fl_range[OF ie double_1 double_100 assms(1,2)]
  have a: "rsi_averages_fl double_round prices period = (PInf, PInf)
            \<longrightarrow> calculateRSI_fl double_round prices period = Val NaN"
    using range by (simp add: rsi_averages_fl_unfold)
  have b: "rsi_averages_fl double_round prices period \<noteq> (PInf, PInf)
            \<longrightarrow> (\<exists>r. calculateRSI_fl double_round prices period = Val (Num r)
                      \<and> 0 \<le> r \<and> r \<le> 100)"
    using range by (simp add: rsi_averages_fl_unfold)
  have c: "sorted_wrt (<) prices \<longrightarrow> calculateRSI_fl double_round prices period = Val (Num 100)"
    using rsi_fl_increasing[OF ie assms(1,2)] by blast
  have d: "sorted_wrt (>) prices \<longrightarrow> calculateRSI_fl double_round prices period = Val (Num 0)"
    using rsi_fl_decreasing[OF ie double_1 double_100 g assms(4) assms(1,2)] by blast
  from a b c d show ?thesis by blast
qed

theorem rsi_double_range_and_extremes_witness:
  "calculateRSI_fl double_round [15, 14, 13, 12, 11, 10, 9, 8, 7, 6, 5, 4, 3, 2, 1] 14 = Val (Num 0)
   \<and> calculateRSI_fl double_round [1, 2, 3, 4, 5, 6, 7, 8, 9, 10, 11, 12, 13, 14, 15] 14 = Val (Num 100)
   \<and> calculateRSI_fl double_round [2 ^ 1023, 0, 2 ^ 1023, 0, 2 ^ 1023] 4 = Val NaN
   \<and> (\<exists>r. calculateRSI_fl double_round [1, 2, 1] 2 = Val (Num r) \<and> 0 \<le> r \<and> r \<le> 100)"
proof -
  have d0: "representable double_round 0" by (simp add: representable_def double_round_zero)
  have dh: "representable double_round (2 ^ 1023)"
    unfolding representable_def by (rule double_huge(1))
  have "calculateRSI_fl double_round [15, 14, 13, 12, 11, 10, 9, 8, 7, 6, 5, 4, 3, 2, 1] 14 = Val (Num 0)"
    using rsi_double_range_and_extremes[of 14 "[15, 14, 13, 12, 11, 10, 9, 8, 7, 6, 5, 4, 3, 2, 1]"]
    by (simp add: double_numeral double_1)
  moreover have "calculateRSI_fl double_round [1, 2, 3, 4, 5, 6, 7, 8, 9, 10, 11, 12, 13, 14, 15] 14 = Val (Num 100)"
    using rsi_double_range_and_extremes[of 14 "[1, 2, 3, 4, 5, 6, 7, 8, 9, 10, 11, 12, 13, 14, 15]"]
    by (simp add: double_numeral double_1)
  moreover have "calculateRSI_fl double_round [2 ^ 1023, 0, 2 ^ 1023, 0, 2 ^ 1023] 4 = Val NaN"
  proof -
    have av: "rsi_averages_fl double_round [2 ^ 1023, 0, 2 ^ 1023, 0, 2 ^ 1023] 4 = (PInf, PInf)"
      by (rule rsi_averages_fl_alternating[OF double_round_zero double_huge]) simp
    have pos: "(0::nat) < 4" by simp
    have len: "4 + 1 \<le> length [2 ^ 1023, 0, 2 ^ 1023, 0, 2 ^ 1023 :: real]"
      "length [2 ^ 1023, 0, 2 ^ 1023, 0, 2 ^ 1023 :: real] < 2 ^ 32" by simp_all
    have rep: "\<forall>x\<in>set [2 ^ 1023, 0, 2 ^ 1023, 0, 2 ^ 1023]. representable double_round x"
      using d0 dh by (simp only: list.set ball_simps insert_iff empty_iff)
    show ?thesis
      using rsi_double_range_and_extremes[OF pos len rep] av by blast
  qed
  moreover have "\<exists>r. calculateRSI_fl double_round [1, 2, 1] 2 = Val (Num r) \<and> 0 \<le> r \<and> r \<le> 100"
  proof -
    have m1: "double_round (- 1) = Num (- 1)"
      using double_exact(2)[of 1 0] by (simp add: representable_def double_max_def)
    have av: "rsi_averages_fl double_round [1, 2, 1] 2 = (Num (1 / 2), Num (1 / 2))"
      by (rule rsi_averages_fl_mixed[OF double_1[unfolded representable_def] m1 double_half])
    show ?thesis
      using rsi_double_range_and_extremes[of 2 "[1, 2, 1]"] av
      by (simp add: double_numeral double_1)
  qed
  ultimately show ?thesis by blast
qed

text \<open>
  C8, as it is stated, fails in two ways. With the period 4 and the series
  \<open>0, 2\<^sup>1\<^sup>0\<^sup>2\<^sup>3, 0, 2\<^sup>1\<^sup>0\<^sup>2\<^sup>3, 0\<close>, the gains and the losses both add up to \<open>2\<^sup>1\<^sup>0\<^sup>2\<^sup>4\<close>, which
  is \<open>Infinity\<close> for a double, and \<open>Infinity / Infinity\<close> is \<open>NaN\<close>. With the period 0 the
  loop does not run, both averages are \<open>0 / 0\<close>, and the result is \<open>NaN\<close> again, which is
  not between 0 and 100.
\<close>

theorem rsi_double_overflow_counterexample:
  "calculateRSI_fl double_round [0, 2 ^ 1023, 0, 2 ^ 1023, 0] 4 = Val NaN
   \<and> calculateRSI_fl double_round [1] 0 = Val NaN"
proof
  show "calculateRSI_fl double_round [0, 2 ^ 1023, 0, 2 ^ 1023, 0] 4 = Val NaN"
    by (rule rsi_fl_alternating[OF double_round_zero double_huge]) simp
  show "calculateRSI_fl double_round [1] 0 = Val NaN" by (rule rsi_fl_period_0)
qed

section \<open>The Bollinger bands on doubles\<close>

text \<open>
  C10, as the code has it. For a period of at least 1, a series of at least \<open>period\<close>
  elements and a positive multiplier (2 by default), with every operation rounded to a
  double: the bands are returned, the middle one is the moving average, which is finite
  or an infinity; when it is finite, \<open>lower \<le> middle \<le> upper\<close>; when the sum of the window
  has overflowed to \<open>Infinity\<close> the lower band is \<open>NaN\<close>, and to \<open>-Infinity\<close> the upper band
  is \<open>NaN\<close>; and for a series of identical values \<open>v\<close> whose multiples \<open>k \<sqdot> v\<close> up to the
  period are doubles (as for 5 and the period 20), the three bands are equal to \<open>v\<close>.
\<close>

theorem bollinger_double_ordered:
  assumes "0 < period" "period \<le> length prices" "0 < stdDev"
  shows "\<exists>b. calculateBollingerBands_fl double_round prices period stdDev = Some b
     \<and> middle b = calculateMA_fl double_round prices period
     \<and> ((\<exists>mu. middle b = Val (Num mu)) \<or> middle b = Val PInf \<or> middle b = Val NInf)
     \<and> (\<forall>mu. middle b = Val (Num mu) \<longrightarrow> num_le (lower b) (Num mu) \<and> num_le (Num mu) (upper b))
     \<and> (middle b = Val PInf \<longrightarrow> lower b = NaN)
     \<and> (middle b = Val NInf \<longrightarrow> upper b = NaN)
     \<and> (\<forall>v. (\<forall>x\<in>set prices. x = v) \<and> (\<forall>k\<le>period. representable double_round (real k * v))
            \<longrightarrow> b = \<lparr>upper = Num v, middle = Val (Num v), lower = Num v\<rparr>)"
proof -
  note ie = double_round_ieee_like
  obtain b where b: "calculateBollingerBands_fl double_round prices period stdDev = Some b"
    "middle b = calculateMA_fl double_round prices period"
    using bollinger_fl_middle[OF assms(2)] by blast
  have c: "(\<exists>mu. middle b = Val (Num mu)) \<or> middle b = Val PInf \<or> middle b = Val NInf"
    unfolding b(2) by (rule ma_fl_cases[OF ie assms(1,2)])
  have d: "\<forall>mu. middle b = Val (Num mu) \<longrightarrow> num_le (lower b) (Num mu) \<and> num_le (Num mu) (upper b)"
    using bollinger_fl_ordered[OF ie assms(1,2,3)] b by fastforce
  have e: "middle b = Val PInf \<longrightarrow> lower b = NaN"
    using bollinger_fl_overflow(1)[OF assms] b by fastforce
  have f: "middle b = Val NInf \<longrightarrow> upper b = NaN"
    using bollinger_fl_overflow(2)[OF assms] b by fastforce
  have g: "\<forall>v. (\<forall>x\<in>set prices. x = v) \<and> (\<forall>k\<le>period. representable double_round (real k * v))
            \<longrightarrow> b = \<lparr>upper = Num v, middle = Val (Num v), lower = Num v\<rparr>"
  proof (intro allI impI, elim conjE)
    fix v assume same: "\<forall>x\<in>set prices. x = v"
      and rep: "\<forall>k\<le>period. representable double_round (real k * v)"
    have "prices = replicate (length prices) v"
      using same by (simp add: replicate_length_same)
    then have "calculateBollingerBands_fl double_round prices period stdDev =
        Some \<lparr>upper = Num v, middle = Val (Num v), lower = Num v\<rparr>"
      using bollinger_fl_identical[OF ie rep assms(1,2), of stdDev] by simp
    then show "b = \<lparr>upper = Num v, middle = Val (Num v), lower = Num v\<rparr>" using b(1) by simp
  qed
  from b c d e f g show ?thesis by blast
qed

theorem bollinger_double_ordered_witness:
  "calculateBollingerBands_fl double_round (replicate 100 5) 20 2 =
     Some \<lparr>upper = Num 5, middle = Val (Num 5), lower = Num 5\<rparr>
   \<and> (\<exists>b. calculateBollingerBands_fl double_round [1, 3] 2 2 = Some b
          \<and> middle b = Val (Num 2) \<and> num_le (lower b) (Num 2) \<and> num_le (Num 2) (upper b))
   \<and> (\<exists>b. calculateBollingerBands_fl double_round [0, 2 ^ 1023, 2 ^ 1023] 2 2 = Some b
          \<and> middle b = Val PInf \<and> lower b = NaN)
   \<and> (\<exists>b. calculateBollingerBands_fl double_round [- (2 ^ 1023), - (2 ^ 1023)] 2 2 = Some b
          \<and> middle b = Val NInf \<and> upper b = NaN)"
proof -
  have pos: "(0::nat) < 2" "(0::real) < 2" by simp_all
  have a: "calculateBollingerBands_fl double_round (replicate 100 5) 20 2 =
     Some \<lparr>upper = Num 5, middle = Val (Num 5), lower = Num 5\<rparr>"
  proof -
    have same: "\<forall>x\<in>set (replicate 100 (5::real)). x = 5" by simp
    obtain b where b: "calculateBollingerBands_fl double_round (replicate 100 5) 20 2 = Some b"
      and all: "\<forall>v. (\<forall>x\<in>set (replicate 100 5). x = v)
                 \<and> (\<forall>k\<le>20. representable double_round (real k * v))
            \<longrightarrow> b = \<lparr>upper = Num v, middle = Val (Num v), lower = Num v\<rparr>"
      using bollinger_double_ordered[of 20 "replicate 100 5" 2] by auto
    have "b = \<lparr>upper = Num 5, middle = Val (Num 5), lower = Num 5\<rparr>"
      using all same double_multiples_of_5 by blast
    then show ?thesis using b by simp
  qed
  have b: "\<exists>b. calculateBollingerBands_fl double_round [1, 3] 2 2 = Some b
          \<and> middle b = Val (Num 2) \<and> num_le (lower b) (Num 2) \<and> num_le (Num 2) (upper b)"
  proof -
    have len: "2 \<le> length [1, 3 :: real]" by simp
    have ma: "calculateMA_fl double_round [1, 3] 2 = Val (Num 2)"
      using ma_fl_pair[of double_round] double_1 double_numeral[of "num.Bit0 (num.Bit0 num.One)"]
        double_numeral[of "num.Bit0 num.One"]
      by (simp add: representable_def)
    show ?thesis
      using bollinger_double_ordered[OF pos(1) len pos(2)] ma by metis
  qed
  have c: "\<exists>b. calculateBollingerBands_fl double_round [0, 2 ^ 1023, 2 ^ 1023] 2 2 = Some b
          \<and> middle b = Val PInf \<and> lower b = NaN"
  proof -
    have len: "2 \<le> length [0, 2 ^ 1023, 2 ^ 1023 :: real]" by simp
    have ma: "calculateMA_fl double_round [0, 2 ^ 1023, 2 ^ 1023] 2 = Val PInf"
      by (rule ma_fl_overflow_up[OF double_huge(1) double_huge(3)])
    show ?thesis
      using bollinger_double_ordered[OF pos(1) len pos(2)] ma by metis
  qed
  have d: "\<exists>b. calculateBollingerBands_fl double_round [- (2 ^ 1023), - (2 ^ 1023)] 2 2 = Some b
          \<and> middle b = Val NInf \<and> upper b = NaN"
  proof -
    have len: "2 \<le> length [- (2 ^ 1023), - (2 ^ 1023) :: real]" by simp
    have ma: "calculateMA_fl double_round [- (2 ^ 1023), - (2 ^ 1023)] 2 = Val NInf"
      by (rule ma_fl_overflow_down[OF double_huge(2) double_huge_neg])
    show ?thesis
      using bollinger_double_ordered[OF pos(1) len pos(2)] ma by metis
  qed
  from a b c d show ?thesis by blast
qed

text \<open>
  C10, as it is stated, fails in two ways. The series of the two identical values
  \<open>2\<^sup>1\<^sup>0\<^sup>2\<^sup>3\<close>, with the period 2, has the sum \<open>2\<^sup>1\<^sup>0\<^sup>2\<^sup>4\<close>, which is \<open>Infinity\<close> for a double:
  the middle and the upper band are \<open>Infinity\<close>, and the lower band is
  \<open>Infinity - Infinity\<close>, that is \<open>NaN\<close>, so the bands are neither ordered nor equal to the
  value. With the period 0 the middle band is \<open>1 / 0\<close> and the deviation is the square
  root of \<open>0 / 0\<close>, so the upper and the lower band are \<open>NaN\<close>.
\<close>

theorem bollinger_double_overflow_counterexample:
  "calculateBollingerBands_fl double_round [2 ^ 1023, 2 ^ 1023] 2 2 =
     Some \<lparr>upper = PInf, middle = Val PInf, lower = NaN\<rparr>
   \<and> calculateBollingerBands_fl double_round [1] 0 2 =
     Some \<lparr>upper = NaN, middle = Val PInf, lower = NaN\<rparr>"
proof
  show "calculateBollingerBands_fl double_round [2 ^ 1023, 2 ^ 1023] 2 2 =
     Some \<lparr>upper = PInf, middle = Val PInf, lower = NaN\<rparr>"
    by (rule bollinger_fl_overflow_pair[OF double_huge(1) double_huge(3)])
  show "calculateBollingerBands_fl double_round [1] 0 2 =
     Some \<lparr>upper = NaN, middle = Val PInf, lower = NaN\<rparr>"
    using double_1 by (intro bollinger_fl_period_0[of double_round]) (simp add: representable_def)
qed

section \<open>The swings\<close>

lemma window_loop_char:
  "window_loop prices w i j (h, l) =
     (h \<and> (\<forall>k\<in>{j..i + w}. k \<noteq> i \<longrightarrow> prices ! k < prices ! i),
      l \<and> (\<forall>k\<in>{j..i + w}. k \<noteq> i \<longrightarrow> prices ! k > prices ! i))"
proof (induction "i + w + 1 - j" arbitrary: j h l)
  case 0
  then have "i + w < j" by simp
  then show ?case by (simp add: window_loop.simps)
next
  case (Suc n)
  then have le: "j \<le> i + w" by simp
  have hyp: "window_loop prices w i (Suc j) (h', l') =
     (h' \<and> (\<forall>k\<in>{Suc j..i + w}. k \<noteq> i \<longrightarrow> prices ! k < prices ! i),
      l' \<and> (\<forall>k\<in>{Suc j..i + w}. k \<noteq> i \<longrightarrow> prices ! k > prices ! i))" for h' l'
    using Suc.hyps(1)[of "Suc j"] Suc.hyps(2) by simp
  have ins: "{j..i + w} = insert j {Suc j..i + w}" using le by auto
  have ball: "(\<forall>k\<in>{j..i + w}. P k) \<longleftrightarrow> (P j \<and> (\<forall>k\<in>{Suc j..i + w}. P k))" for P
  proof -
    have "(\<forall>k\<in>insert j {Suc j..i + w}. P k) \<longleftrightarrow> (P j \<and> (\<forall>k\<in>{Suc j..i + w}. P k))"
      by blast
    then show ?thesis by (simp only: ins[symmetric])
  qed
  define h2 where "h2 = (if j \<noteq> i \<and> prices ! j \<ge> prices ! i then False else h)"
  define l2 where "l2 = (if j \<noteq> i \<and> prices ! j \<le> prices ! i then False else l)"
  have "window_loop prices w i j (h, l) = window_loop prices w i (Suc j) (h2, l2)"
    using le by (subst window_loop.simps) (simp add: h2_def l2_def)
  also have "\<dots> =
     (h2 \<and> (\<forall>k\<in>{Suc j..i + w}. k \<noteq> i \<longrightarrow> prices ! k < prices ! i),
      l2 \<and> (\<forall>k\<in>{Suc j..i + w}. k \<noteq> i \<longrightarrow> prices ! k > prices ! i))"
    by (rule hyp)
  also have "\<dots> =
     (h \<and> (\<forall>k\<in>{j..i + w}. k \<noteq> i \<longrightarrow> prices ! k < prices ! i),
      l \<and> (\<forall>k\<in>{j..i + w}. k \<noteq> i \<longrightarrow> prices ! k > prices ! i))"
    unfolding ball[of "\<lambda>k. k \<noteq> i \<longrightarrow> prices ! k < prices ! i"]
      ball[of "\<lambda>k. k \<noteq> i \<longrightarrow> prices ! i < prices ! k"]
    by (auto simp: h2_def l2_def)
  finally show ?case .
qed

lemma findSwings_loop_char:
  "findSwings_loop prices w i swings =
     swings @ concat (map (swing_at prices w) [i..<length prices - w])"
proof (induction "length prices - i" arbitrary: i swings)
  case 0
  then have "\<not> i + w < length prices" by simp
  moreover from 0 have "[i..<length prices - w] = []" by simp
  ultimately show ?case by (simp add: findSwings_loop.simps)
next
  case (Suc n)
  show ?case
  proof (cases "i + w < length prices")
    case False
    then have "[i..<length prices - w] = []" by simp
    with False show ?thesis by (simp add: findSwings_loop.simps)
  next
    case True
    then have up: "[i..<length prices - w] = i # [Suc i..<length prices - w]"
      by (simp add: upt_conv_Cons)
    have hyp: "findSwings_loop prices w (Suc i) sw =
        sw @ concat (map (swing_at prices w) [Suc i..<length prices - w])" for sw
      using Suc.hyps(1)[of "Suc i"] Suc.hyps(2) by simp
    have win: "window_loop prices w i (i - w) (True, True) = (is_high prices w i, is_low prices w i)"
      by (simp add: window_loop_char is_high_def is_low_def)
    show ?thesis
      using True by (subst findSwings_loop.simps) (simp add: win hyp up swing_at_def)
  qed
qed

lemma findSwings_char:
  "findSwings prices w = concat (map (swing_at prices w) [w..<length prices - w])"
  by (simp add: findSwings_def findSwings_loop_char)

lemma index_swing_at: "map index (swing_at prices w i) = (if is_high prices w i \<or> is_low prices w i then [i] else [])"
  by (simp add: swing_at_def)

lemma map_index_concat:
  "map index (concat (map (swing_at prices w) is)) =
     filter (\<lambda>i. is_high prices w i \<or> is_low prices w i) is"
  by (induction "is") (simp_all add: index_swing_at)

lemma findSwings_indices:
  "map index (findSwings prices w) =
     filter (\<lambda>i. is_high prices w i \<or> is_low prices w i) [w..<length prices - w]"
  by (simp add: findSwings_char map_index_concat)

lemma findSwings_distinct: "distinct (map index (findSwings prices w))"
  by (simp add: findSwings_indices)

lemma tie_not_swing:
  assumes "k \<in> {i - w..i + w}" "k \<noteq> i" "prices ! k = prices ! i"
  shows "i \<notin> set (map index (findSwings prices w))"
proof -
  have "\<not> is_high prices w i" "\<not> is_low prices w i"
    using assms unfolding is_high_def is_low_def by force+
  then show ?thesis by (simp add: findSwings_indices)
qed

lemma not_extremum:
  assumes "a \<in> {i - w..i + w}" "a \<noteq> i" "b \<in> {i - w..i + w}" "b \<noteq> i"
    and "prices ! a < prices ! i" "prices ! i < prices ! b"
  shows "swing_at prices w i = []"
proof -
  have "\<not> is_high prices w i"
  proof
    assume "is_high prices w i"
    then have "prices ! b < prices ! i" unfolding is_high_def using assms(3,4) by blast
    with assms(6) show False by simp
  qed
  moreover have "\<not> is_low prices w i"
  proof
    assume "is_low prices w i"
    then have "prices ! a > prices ! i" unfolding is_low_def using assms(1,2) by blast
    with assms(5) show False by simp
  qed
  ultimately show ?thesis by (simp add: swing_at_def)
qed

lemma monotone_no_swing:
  assumes "0 < w" "sorted_wrt (<) prices \<or> sorted_wrt (>) prices"
  shows "findSwings prices w = []"
proof -
  have "swing_at prices w i = []" if "i \<in> set [w..<length prices - w]" for i
  proof -
    from that have i: "w \<le> i" "i + w < length prices" by auto
    then have lo: "i - 1 \<in> {i - w..i + w}" "i - 1 \<noteq> i" "i - 1 < i"
      and hi: "i + 1 \<in> {i - w..i + w}" "i + 1 \<noteq> i" "i + 1 < length prices"
      using assms(1) by auto
    have len: "i < length prices" using i by simp
    from assms(2) show ?thesis
    proof
      assume s: "sorted_wrt (<) prices"
      have "prices ! (i - 1) < prices ! i"
        using s lo(3) len by (simp add: sorted_wrt_iff_nth_less)
      moreover have "prices ! i < prices ! (i + 1)"
        using s hi(3) by (simp add: sorted_wrt_iff_nth_less)
      ultimately show ?thesis using lo(1,2) hi(1,2) by (rule not_extremum[rotated 4])
    next
      assume s: "sorted_wrt (>) prices"
      have "prices ! (i + 1) < prices ! i"
        using s hi(3) by (simp add: sorted_wrt_iff_nth_less)
      moreover have "prices ! i < prices ! (i - 1)"
        using s lo(3) len by (simp add: sorted_wrt_iff_nth_less)
      ultimately show ?thesis using hi(1,2) lo(1,2) by (rule not_extremum[rotated 4])
    qed
  qed
  then show ?thesis by (simp add: findSwings_char)
qed

text \<open>
  C9, as the code has it. No index is listed twice, so none is both a high and a low; a
  scanned index with a tied price in its window is not listed; and for a window size of
  at least 1 a strictly monotonic series of more than \<open>2 * windowSize + 1\<close> elements
  has no swing.
\<close>

theorem swings_exclusive_and_none_when_monotonic:
  "distinct (map index (findSwings prices w))
   \<and> (\<forall>a\<in>set (findSwings prices w). \<forall>b\<in>set (findSwings prices w).
        index a = index b \<longrightarrow> type a = type b)
   \<and> (w \<le> i \<and> i + w < length prices \<and> k \<in> {i - w..i + w} \<and> k \<noteq> i
        \<and> prices ! k = prices ! i \<longrightarrow>
        i \<notin> set (map index (findSwings prices w)))
   \<and> (0 < w \<and> 2 * w + 1 < length prices
        \<and> (sorted_wrt (<) prices \<or> sorted_wrt (>) prices) \<longrightarrow>
        findSwings prices w = [])"
proof (intro conjI impI ballI)
  show d: "distinct (map index (findSwings prices w))" by (rule findSwings_distinct)
  fix a b
  assume "a \<in> set (findSwings prices w)" "b \<in> set (findSwings prices w)" "index a = index b"
  moreover have "inj_on index (set (findSwings prices w))"
    using d by (simp add: distinct_map)
  ultimately have "a = b" by (simp add: inj_on_def)
  then show "type a = type b" by simp
next
  assume "w \<le> i \<and> i + w < length prices \<and> k \<in> {i - w..i + w} \<and> k \<noteq> i
        \<and> prices ! k = prices ! i"
  then show "i \<notin> set (map index (findSwings prices w))"
    using tie_not_swing[of k i w prices] by blast
next
  assume "0 < w \<and> 2 * w + 1 < length prices
        \<and> (sorted_wrt (<) prices \<or> sorted_wrt (>) prices)"
  then show "findSwings prices w = []" using monotone_no_swing[of w prices] by blast
qed

theorem swings_exclusive_and_none_when_monotonic_witness:
  "findSwings [1, 3, 2, 5, 4, 4, 6] 1 =
     [\<lparr>type = high, index = 1, price = 3\<rparr>, \<lparr>type = low, index = 2, price = 2\<rparr>,
      \<lparr>type = high, index = 3, price = 5\<rparr>]
   \<and> (1 :: nat) \<le> 4 \<and> 4 + 1 < length [1, 3, 2, 5, 4, 4, 6 :: real]
   \<and> (5 :: nat) \<in> {4 - 1..4 + 1} \<and> (5 :: nat) \<noteq> 4
   \<and> [1, 3, 2, 5, 4, 4, 6 :: real] ! 5 = [1, 3, 2, 5, 4, 4, 6] ! 4
   \<and> 4 \<notin> set (map index (findSwings [1, 3, 2, 5, 4, 4, 6] 1))
   \<and> (0 :: nat) < 1 \<and> 2 * 1 + 1 < length [1, 2, 3, 4 :: real]
   \<and> sorted_wrt (<) [1, 2, 3, 4 :: real]
   \<and> findSwings [1, 2, 3, 4] 1 = []"
proof -
  have run: "findSwings [1, 3, 2, 5, 4, 4, 6] 1 =
     [\<lparr>type = high, index = 1, price = 3\<rparr>, \<lparr>type = low, index = 2, price = 2\<rparr>,
      \<lparr>type = high, index = 3, price = 5\<rparr>]"
    by (simp add: findSwings_def findSwings_loop.simps window_loop.simps)
  have tie: "4 \<notin> set (map index (findSwings [1, 3, 2, 5, 4, 4, 6] 1))"
    using swings_exclusive_and_none_when_monotonic [of "[1, 3, 2, 5, 4, 4, 6]" 1 4 5]
    by simp
  have mono: "findSwings [1, 2, 3, 4] 1 = []"
    using swings_exclusive_and_none_when_monotonic [of "[1, 2, 3, 4]" 1]
    by simp
  from run tie mono show ?thesis by simp
qed

text \<open>
  C9, as it is stated, fails for the window size 0: the window of an index has no other
  index, so every index is a high, also in a strictly increasing series.
\<close>

theorem swings_window_0_counterexample:
  "\<not> (\<forall>prices w. 2 * w + 1 < length prices
         \<and> (sorted_wrt (<) prices \<or> sorted_wrt (>) prices) \<longrightarrow>
         findSwings prices w = [])"
proof
  assume "\<forall>prices w. 2 * w + 1 < length prices
         \<and> (sorted_wrt (<) prices \<or> sorted_wrt (>) prices) \<longrightarrow>
         findSwings prices w = []"
  then have "2 * 0 + 1 < length [1, 2, 3 :: real]
         \<and> (sorted_wrt (<) [1, 2, 3 :: real] \<or> sorted_wrt (>) [1, 2, 3 :: real]) \<longrightarrow>
         findSwings [1, 2, 3] 0 = []" by blast
  then have "findSwings [1, 2, 3] 0 = []" by simp
  moreover have "findSwings [1, 2, 3] 0 =
      [\<lparr>type = high, index = 0, price = 1\<rparr>, \<lparr>type = high, index = 1, price = 2\<rparr>,
       \<lparr>type = high, index = 2, price = 3\<rparr>]"
    by (simp add: findSwings_def findSwings_loop.simps window_loop.simps)
  ultimately show False by simp
qed

section \<open>The aggregation of the decisions of one symbol\<close>

text \<open>
  C5. The aggregate of the decisions of one symbol is the decision, among BUY, SELL and
  HOLD, that has strictly more votes than each of the two others, and HOLD when there is
  none (so every tie gives HOLD). The decisions BUY, BUY, HOLD give BUY; BUY, SELL, HOLD
  give HOLD. The valid count is the number of analyses whose decision is not
  INSUFFICIENT_DATA, and it is reported over the number of timeframes, which is 8.
\<close>

theorem aggregate_majority_vote:
  "(aggregatedDecision ds = BUY \<longleftrightarrow>
      count_of BUY ds > count_of SELL ds \<and> count_of BUY ds > count_of HOLD ds)
   \<and> (aggregatedDecision ds = SELL \<longleftrightarrow>
      count_of SELL ds > count_of BUY ds \<and> count_of SELL ds > count_of HOLD ds)
   \<and> (aggregatedDecision ds = HOLD \<longleftrightarrow>
      \<not> (count_of BUY ds > count_of SELL ds \<and> count_of BUY ds > count_of HOLD ds)
      \<and> \<not> (count_of SELL ds > count_of BUY ds \<and> count_of SELL ds > count_of HOLD ds))
   \<and> aggregatedDecision [BUY, BUY, HOLD] = BUY
   \<and> aggregatedDecision [BUY, SELL, HOLD] = HOLD
   \<and> validTimeframes (decisionsOf analyses) =
       (length (filter (\<lambda>(t, a). decision a \<noteq> INSUFFICIENT_DATA) analyses), length TIMEFRAMES)
   \<and> validTimeframes ds = (card {i. i < length ds \<and> ds ! i \<noteq> INSUFFICIENT_DATA}, 8)"
proof -
  have vote: "(aggregatedDecision ds = BUY \<longleftrightarrow>
      count_of BUY ds > count_of SELL ds \<and> count_of BUY ds > count_of HOLD ds)
   \<and> (aggregatedDecision ds = SELL \<longleftrightarrow>
      count_of SELL ds > count_of BUY ds \<and> count_of SELL ds > count_of HOLD ds)
   \<and> (aggregatedDecision ds = HOLD \<longleftrightarrow>
      \<not> (count_of BUY ds > count_of SELL ds \<and> count_of BUY ds > count_of HOLD ds)
      \<and> \<not> (count_of SELL ds > count_of BUY ds \<and> count_of SELL ds > count_of HOLD ds))"
    by (auto simp: aggregatedDecision_def Let_def)
  have ex1: "aggregatedDecision [BUY, BUY, HOLD] = BUY"
    by (simp add: aggregatedDecision_def count_of_def)
  have ex2: "aggregatedDecision [BUY, SELL, HOLD] = HOLD"
    by (simp add: aggregatedDecision_def count_of_def)
  have valid: "validTimeframes ds = (card {i. i < length ds \<and> ds ! i \<noteq> INSUFFICIENT_DATA}, 8)"
    by (simp add: validTimeframes_def TIMEFRAMES_def length_filter_conv_card)
  have analyses: "validTimeframes (decisionsOf analyses) =
       (length (filter (\<lambda>(t, a). decision a \<noteq> INSUFFICIENT_DATA) analyses), length TIMEFRAMES)"
    by (simp add: validTimeframes_def decisionsOf_def filter_map o_def case_prod_unfold)
  from vote ex1 ex2 valid analyses show ?thesis by blast
qed

section \<open>The decision of one analysis\<close>

lemma bullishSignals_append: "bullishSignals (xs @ ys) = bullishSignals xs + bullishSignals ys"
  by (simp add: bullishSignals_def)

lemma bearishSignals_append: "bearishSignals (xs @ ys) = bearishSignals xs + bearishSignals ys"
  by (simp add: bearishSignals_def)

lemma bullish_tags:
  "bullishSignals [] = 0"
  "bullishSignals [''BULLISH_TREND''] = 1" "bullishSignals [''BEARISH_TREND''] = 0"
  "bullishSignals [''OVERSOLD''] = 1" "bullishSignals [''OVERBOUGHT''] = 0"
  "bullishSignals [''NEUTRAL_RSI''] = 0"
  "bullishSignals [''BULLISH_MACD''] = 1" "bullishSignals [''BEARISH_MACD''] = 0"
  "bullishSignals [''RESISTANCE_TOUCH''] = 0" "bullishSignals [''SUPPORT_TOUCH''] = 0"
  "bullishSignals [''WITHIN_BANDS''] = 0"
  by (simp_all add: bullishSignals_def)

lemma bearish_tags:
  "bearishSignals [] = 0"
  "bearishSignals [''BULLISH_TREND''] = 0" "bearishSignals [''BEARISH_TREND''] = 1"
  "bearishSignals [''OVERSOLD''] = 0" "bearishSignals [''OVERBOUGHT''] = 1"
  "bearishSignals [''NEUTRAL_RSI''] = 0"
  "bearishSignals [''BULLISH_MACD''] = 0" "bearishSignals [''BEARISH_MACD''] = 1"
  "bearishSignals [''RESISTANCE_TOUCH''] = 0" "bearishSignals [''SUPPORT_TOUCH''] = 0"
  "bearishSignals [''WITHIN_BANDS''] = 0"
  by (simp_all add: bearishSignals_def)

lemma trend_counts:
  "bullishSignals (trendSignals ind) \<le> 1" "bearishSignals (trendSignals ind) \<le> 1"
  by (simp_all add: trendSignals_def bullish_tags bearish_tags)

lemma rsi_counts:
  "bullishSignals (rsiSignals ind) \<le> 1" "bearishSignals (rsiSignals ind) \<le> 1"
  by (simp_all add: rsiSignals_def bullish_tags bearish_tags)

lemma macd_counts:
  "bullishSignals (macdSignals ind) \<le> 1" "bearishSignals (macdSignals ind) \<le> 1"
  by (simp_all add: macdSignals_def bullish_tags bearish_tags)

lemma band_counts:
  "bullishSignals (bandSignals c ind) = 0" "bearishSignals (bandSignals c ind) = 0"
  by (simp_all add: bandSignals_def bullish_tags bearish_tags split: option.split)

lemma collect_counts:
  "bullishSignals (collectSignals c ind) \<le> 3" "bearishSignals (collectSignals c ind) \<le> 3"
proof -
  show "bullishSignals (collectSignals c ind) \<le> 3"
    using trend_counts(1)[of ind] rsi_counts(1)[of ind] macd_counts(1)[of ind]
    by (simp add: collectSignals_def bullishSignals_append band_counts)
  show "bearishSignals (collectSignals c ind) \<le> 3"
    using trend_counts(2)[of ind] rsi_counts(2)[of ind] macd_counts(2)[of ind]
    by (simp add: collectSignals_def bearishSignals_append band_counts)
qed

lemma decide_not_high: "b \<le> 3 \<Longrightarrow> r \<le> 3 \<Longrightarrow> snd (decide b r) \<noteq> HIGH"
  by (simp add: decide_def)

lemma analyzeSeries_enough:
  assumes "20 \<le> length h"
  shows "analyzeSeries sy tf (Some h) =
     \<lparr>symbol = sy, timeframe = tf, currentPrice = Some (last h),
      decision = fst (decide (bullishSignals (collectSignals (last h) (calculateIndicators h)))
                             (bearishSignals (collectSignals (last h) (calculateIndicators h)))),
      confidence = Some (snd (decide (bullishSignals (collectSignals (last h) (calculateIndicators h)))
                             (bearishSignals (collectSignals (last h) (calculateIndicators h))))),
      signals = Some (collectSignals (last h) (calculateIndicators h)),
      indicators = Some (calculateIndicators h), reason = None\<rparr>"
proof -
  have "\<not> length h < 20" using assms by simp
  then show ?thesis
    by (simp only: analyzeSeries_def Let_def option.case if_False split_beta)
qed

lemma analyzeSeries_short:
  "analyzeSeries sy tf None =
     \<lparr>symbol = sy, timeframe = tf, currentPrice = None, decision = INSUFFICIENT_DATA,
      confidence = None, signals = None, indicators = None,
      reason = Some ''Not enough historical data''\<rparr>"
  "length h < 20 \<Longrightarrow> analyzeSeries sy tf (Some h) =
     \<lparr>symbol = sy, timeframe = tf, currentPrice = None, decision = INSUFFICIENT_DATA,
      confidence = None, signals = None, indicators = None,
      reason = Some ''Not enough historical data''\<rparr>"
  by (simp_all add: analyzeSeries_def)

lemma analyzeSeries_not_high: "confidence (analyzeSeries sy tf fetched) \<noteq> Some HIGH"
proof (cases fetched)
  case None
  then show ?thesis by (simp add: analyzeSeries_short)
next
  case (Some h)
  show ?thesis
  proof (cases "length h < 20")
    case True
    then show ?thesis by (simp add: Some analyzeSeries_short)
  next
    case False
    then have "20 \<le> length h" by simp
    then show ?thesis
      by (simp add: Some analyzeSeries_enough decide_not_high collect_counts)
  qed
qed

text \<open>
  C1. For a series of at least 20 prices the signals are those of its indicators; the
  decision is BUY exactly when the bullish count exceeds the bearish count by more than 1,
  SELL exactly when the bearish count exceeds the bullish count by more than 1, and HOLD
  otherwise. With BUY or SELL the confidence is HIGH exactly when the winning count is at
  least 4 and MEDIUM otherwise; with HOLD it is LOW.
\<close>

theorem decision_from_signal_counts:
  "20 \<le> length h \<longrightarrow>
     (\<exists>sigs conf.
        signals (analyzeSeries sy tf (Some h)) = Some sigs
        \<and> sigs = collectSignals (last h) (calculateIndicators h)
        \<and> confidence (analyzeSeries sy tf (Some h)) = Some conf
        \<and> (decision (analyzeSeries sy tf (Some h)) = BUY
             \<longleftrightarrow> bullishSignals sigs > bearishSignals sigs + 1)
        \<and> (decision (analyzeSeries sy tf (Some h)) = SELL
             \<longleftrightarrow> bearishSignals sigs > bullishSignals sigs + 1)
        \<and> (decision (analyzeSeries sy tf (Some h)) = HOLD
             \<longleftrightarrow> \<not> bullishSignals sigs > bearishSignals sigs + 1
               \<and> \<not> bearishSignals sigs > bullishSignals sigs + 1)
        \<and> (decision (analyzeSeries sy tf (Some h)) = BUY \<longrightarrow>
             (conf = HIGH \<longleftrightarrow> bullishSignals sigs \<ge> 4)
             \<and> (conf = MEDIUM \<longleftrightarrow> \<not> bullishSignals sigs \<ge> 4))
        \<and> (decision (analyzeSeries sy tf (Some h)) = SELL \<longrightarrow>
             (conf = HIGH \<longleftrightarrow> bearishSignals sigs \<ge> 4)
             \<and> (conf = MEDIUM \<longleftrightarrow> \<not> bearishSignals sigs \<ge> 4))
        \<and> (decision (analyzeSeries sy tf (Some h)) = HOLD \<longrightarrow> conf = LOW))"
proof
  assume len: "20 \<le> length h"
  define sigs where "sigs = collectSignals (last h) (calculateIndicators h)"
  have a: "analyzeSeries sy tf (Some h) =
     \<lparr>symbol = sy, timeframe = tf, currentPrice = Some (last h),
      decision = fst (decide (bullishSignals sigs) (bearishSignals sigs)),
      confidence = Some (snd (decide (bullishSignals sigs) (bearishSignals sigs))),
      signals = Some sigs,
      indicators = Some (calculateIndicators h), reason = None\<rparr>"
    unfolding sigs_def using len by (rule analyzeSeries_enough)
  show "\<exists>sigs conf.
        signals (analyzeSeries sy tf (Some h)) = Some sigs
        \<and> sigs = collectSignals (last h) (calculateIndicators h)
        \<and> confidence (analyzeSeries sy tf (Some h)) = Some conf
        \<and> (decision (analyzeSeries sy tf (Some h)) = BUY
             \<longleftrightarrow> bullishSignals sigs > bearishSignals sigs + 1)
        \<and> (decision (analyzeSeries sy tf (Some h)) = SELL
             \<longleftrightarrow> bearishSignals sigs > bullishSignals sigs + 1)
        \<and> (decision (analyzeSeries sy tf (Some h)) = HOLD
             \<longleftrightarrow> \<not> bullishSignals sigs > bearishSignals sigs + 1
               \<and> \<not> bearishSignals sigs > bullishSignals sigs + 1)
        \<and> (decision (analyzeSeries sy tf (Some h)) = BUY \<longrightarrow>
             (conf = HIGH \<longleftrightarrow> bullishSignals sigs \<ge> 4)
             \<and> (conf = MEDIUM \<longleftrightarrow> \<not> bullishSignals sigs \<ge> 4))
        \<and> (decision (analyzeSeries sy tf (Some h)) = SELL \<longrightarrow>
             (conf = HIGH \<longleftrightarrow> bearishSignals sigs \<ge> 4)
             \<and> (conf = MEDIUM \<longleftrightarrow> \<not> bearishSignals sigs \<ge> 4))
        \<and> (decision (analyzeSeries sy tf (Some h)) = HOLD \<longrightarrow> conf = LOW)"
    apply (rule exI[of _ sigs])
    apply (rule exI[of _ "snd (decide (bullishSignals sigs) (bearishSignals sigs))"])
    apply (simp only: a sigs_def[symmetric])
    apply (simp add: decide_def)
    done
qed

theorem decision_from_signal_counts_witness:
  "20 \<le> length [15, 14, 13, 12, 11, 10, 9, 8, 7, 6, 5, 4, 3, 2, 1,
                  100, 100, 100, 100, 100, 100, 100, 100, 100, 100, 100 :: real]
   \<and> signals (analyzeSeries ''BTC'' ''1d''
        (Some [15, 14, 13, 12, 11, 10, 9, 8, 7, 6, 5, 4, 3, 2, 1,
               100, 100, 100, 100, 100, 100, 100, 100, 100, 100, 100]))
       = Some [''OVERSOLD'', ''BULLISH_MACD'', ''WITHIN_BANDS'']
   \<and> decision (analyzeSeries ''BTC'' ''1d''
        (Some [15, 14, 13, 12, 11, 10, 9, 8, 7, 6, 5, 4, 3, 2, 1,
               100, 100, 100, 100, 100, 100, 100, 100, 100, 100, 100]))
       = BUY
   \<and> confidence (analyzeSeries ''BTC'' ''1d''
        (Some [15, 14, 13, 12, 11, 10, 9, 8, 7, 6, 5, 4, 3, 2, 1,
               100, 100, 100, 100, 100, 100, 100, 100, 100, 100, 100]))
       = Some MEDIUM"
proof -
  define S :: "real list" where
    "S = [15, 14, 13, 12, 11, 10, 9, 8, 7, 6, 5, 4, 3, 2, 1,
          100, 100, 100, 100, 100, 100, 100, 100, 100, 100, 100]"
  define ind where "ind = calculateIndicators S"
  have len: "20 \<le> length S" by (simp add: S_def)
  have "calculateMA S 50 = Null" by (simp add: S_def calculateMA_def)
  then have trend: "trendSignals ind = []"
    by (simp add: ind_def calculateIndicators_def trendSignals_def)
  have "calculateRSI S 14 = Val (Num 0)"
    by (simp add: S_def calculateRSI_def rsi_loop.simps num_eq_def num_sub_def)
  then have rsi: "rsiSignals ind = [''OVERSOLD'']"
    by (simp add: ind_def calculateIndicators_def rsiSignals_def)
  have "calculateMACD S 12 26 9 \<noteq> None" by (simp add: S_def calculateMACD_def)
  moreover have "num_gt (to_number (calculateEMA S 12)) (to_number (calculateEMA S 26))"
    by (simp add: S_def calculateEMA_def ema_loop.simps num_gt_def)
  ultimately have macd: "macdSignals ind = [''BULLISH_MACD'']"
    by (simp add: ind_def calculateIndicators_def macdSignals_def)
  have last: "last S = 100" by (simp add: S_def)
  have mean: "mean_last S 20 = 229 / 4" by (simp add: mean_last_def S_def)
  have dev: "sq_dev S 20 = 178935 / 4"
    unfolding sq_dev_def mean
    by (simp add: S_def sum.atLeast_Suc_lessThan power2_eq_square)
  have sq: "45 < sqrt (178935 / 4 / 20)"
    by (rule real_less_rsqrt) simp
  have bands: "calculateBollingerBands S 20 2 =
      Some \<lparr>upper = Num (229 / 4 + 2 * sqrt (178935 / 4 / 20)),
            middle = Val (Num (229 / 4)),
            lower = Num (229 / 4 - 2 * sqrt (178935 / 4 / 20))\<rparr>"
    using len by (simp add: bollinger_pos mean dev)
  have band: "bandSignals (last S) ind = [''WITHIN_BANDS'']"
    using sq by (simp add: ind_def calculateIndicators_def bandSignals_def bands last num_gt_def)
  have sigs: "collectSignals (last S) ind = [''OVERSOLD'', ''BULLISH_MACD'', ''WITHIN_BANDS'']"
    by (simp add: collectSignals_def trend rsi macd band)
  have counts: "bullishSignals [''OVERSOLD'', ''BULLISH_MACD'', ''WITHIN_BANDS''] = 2"
    "bearishSignals [''OVERSOLD'', ''BULLISH_MACD'', ''WITHIN_BANDS''] = 0"
    by (simp_all add: bullishSignals_def bearishSignals_def)
  from decision_from_signal_counts [of S "''BTC''" "''1d''"] len
  have "signals (analyzeSeries ''BTC'' ''1d'' (Some S))
          = Some [''OVERSOLD'', ''BULLISH_MACD'', ''WITHIN_BANDS'']
      \<and> decision (analyzeSeries ''BTC'' ''1d'' (Some S)) = BUY
      \<and> confidence (analyzeSeries ''BTC'' ''1d'' (Some S)) = Some MEDIUM"
    by (auto simp: sigs[unfolded ind_def] counts)
  with len show ?thesis unfolding S_def by simp
qed

lemma scanTimeframes_none:
  "(\<And>tf a. (tf, a) \<in> set as \<Longrightarrow> confidence a \<noteq> Some HIGH) \<Longrightarrow> scanTimeframes sy as = []"
  by (induction sy as rule: scanTimeframes.induct) auto

lemma analyzeSymbol_not_high: "confidence (fst (analyzeSymbol sy tf rnd)) \<noteq> Some HIGH"
  by (simp add: analyzeSymbol_def split_beta analyzeSeries_not_high)

lemma analyzeTimeframes_not_high:
  "(tf, a) \<in> set (fst (analyzeTimeframes sy tfs rnd)) \<Longrightarrow> confidence a \<noteq> Some HIGH"
proof (induction tfs arbitrary: rnd)
  case Nil
  then show ?case by simp
next
  case (Cons t ts)
  then show ?case
    using analyzeSymbol_not_high[of sy t rnd]
    by (auto simp: split_beta)
qed

lemma analyzeSymbols_keys: "map fst (fst (analyzeSymbols sys rnd)) = sys"
  by (induction sys arbitrary: rnd) (simp_all add: split_beta)

lemma analyzeSymbols_not_high:
  "(sy, as) \<in> set (fst (analyzeSymbols sys rnd)) \<Longrightarrow> (tf, a) \<in> set as \<Longrightarrow>
   confidence a \<noteq> Some HIGH"
proof (induction sys arbitrary: rnd)
  case Nil
  then show ?case by simp
next
  case (Cons s ss)
  then show ?case
    by (auto simp: split_beta dest: analyzeTimeframes_not_high)
qed

lemma scanSymbols_none:
  assumes "set keys \<subseteq> fst ` set res"
    and "\<And>sy as tf a. (sy, as) \<in> set res \<Longrightarrow> (tf, a) \<in> set as \<Longrightarrow> confidence a \<noteq> Some HIGH"
  shows "scanSymbols res keys = Some []"
  using assms(1)
proof (induction keys)
  case Nil
  then show ?case by simp
next
  case (Cons k ks)
  then have "k \<in> fst ` set res" by simp
  then obtain as where look: "map_of res k = Some as"
    by (metis map_of_eq_None_iff not_Some_eq)
  then have "(k, as) \<in> set res" by (rule map_of_SomeD)
  then have "scanTimeframes k as = []"
    using assms(2) by (intro scanTimeframes_none) blast
  moreover have "scanSymbols res ks = Some []" using Cons by simp
  ultimately show ?case by (simp add: look)
qed

lemma sendAlerts_none: "scanSymbols res SYMBOLS = Some [] \<Longrightarrow> sendAlerts res sessions = []"
  by (induction res sessions rule: sendAlerts.induct) simp_all

lemma scan_all_none: "scanSymbols (fst (analyzeAllSymbols rnd)) SYMBOLS = Some []"
proof (rule scanSymbols_none)
  have "map fst (fst (analyzeAllSymbols rnd)) = SYMBOLS"
    by (simp add: analyzeAllSymbols_def analyzeSymbols_keys)
  then have "set SYMBOLS = fst ` set (fst (analyzeAllSymbols rnd))"
    by (metis set_map)
  then show "set SYMBOLS \<subseteq> fst ` set (fst (analyzeAllSymbols rnd))" by simp
next
  fix sy as tf a
  assume "(sy, as) \<in> set (fst (analyzeAllSymbols rnd))" "(tf, a) \<in> set as"
  then show "confidence a \<noteq> Some HIGH"
    unfolding analyzeAllSymbols_def by (rule analyzeSymbols_not_high)
qed

text \<open>
  C2. Whatever the price and the indicators, at most 3 of the signals count as bullish
  and at most 3 as bearish, since the signal of the bands counts as neither. So no
  analysis has the confidence HIGH, the scan for HIGH selects nothing from any analyses,
  and the periodic analysis sends no alert.
\<close>

theorem confidence_never_high:
  "bullishSignals (collectSignals current ind) \<le> 3
   \<and> bearishSignals (collectSignals current ind) \<le> 3
   \<and> bullishSignals (bandSignals current ind) = 0
   \<and> bearishSignals (bandSignals current ind) = 0
   \<and> confidence (analyzeSeries sy tf fetched) \<noteq> Some HIGH
   \<and> scanTimeframes sy (map (\<lambda>(t, series). (t, analyzeSeries sy t series)) inputs) = []
   \<and> scanSymbols (fst (analyzeAllSymbols rnd)) SYMBOLS = Some []
   \<and> fst (periodicAnalysis sessions rnd) = []"
proof -
  have scan: "scanTimeframes sy (map (\<lambda>(t, series). (t, analyzeSeries sy t series)) inputs) = []"
    by (rule scanTimeframes_none) (auto simp: analyzeSeries_not_high)
  have periodic: "fst (periodicAnalysis sessions rnd) = []"
    by (simp add: periodicAnalysis_def split_beta sendAlerts_none scan_all_none)
  show ?thesis
    using collect_counts[of current ind] band_counts[of current ind]
      analyzeSeries_not_high[of sy tf fetched] scan scan_all_none[of rnd] periodic
    by simp
qed

lemma bandSignalsRead_total:
  "bandSignalsRead current (bb ind) = Inr (bandSignals current ind)"
  by (cases "bb ind") (simp_all add: bandSignalsRead_def bandSignals_def read_def)

lemma analyzeSymbolBody_total:
  "analyzeSymbolBody sy tf fetched = Inr (analyzeSeries sy tf fetched)"
proof (cases fetched)
  case None
  then show ?thesis
    by (simp add: analyzeSymbolBody_def notEnoughData_def analyzeSeries_short)
next
  case (Some h)
  show ?thesis
  proof (cases "length h < 20")
    case True
    then show ?thesis
      by (simp add: Some analyzeSymbolBody_def notEnoughData_def read_def analyzeSeries_short)
  next
    case False
    then have len: "20 \<le> length h" by simp
    have ne: "notEnoughData (Some h) = Inr False"
      using False by (simp add: notEnoughData_def read_def)
    have band: "bandSignalsRead (last h) (calculateBollingerBands h 20 2) =
        Inr (bandSignals (last h) (calculateIndicators h))"
      using bandSignalsRead_total[of "last h" "calculateIndicators h"]
      by (simp add: calculateIndicators_def)
    have ind: "\<lparr>ma20 = calculateMA h 20, ma50 = calculateMA h 50, rsi = calculateRSI h 14,
        ema12 = calculateEMA h 12, ema26 = calculateEMA h 26,
        bb = calculateBollingerBands h 20 2, macd = calculateMACD h 12 26 9\<rparr> =
        calculateIndicators h"
      by (simp add: calculateIndicators_def)
    show ?thesis
      unfolding Some analyzeSymbolBody_def ne
      by (simp add: read_def Let_def ind band analyzeSeries_enough[OF len]
          collectSignals_def split_beta)
  qed
qed

text \<open>
  C4. A series that is absent or has fewer than 20 prices gives, without an exception,
  the record of the symbol, the timeframe, the decision INSUFFICIENT_DATA and the reason,
  with no indicators, no signals, no price and no confidence. For no series at all does
  the analysis throw: every read of a property that could throw is behind its test. A
  record of insufficient data is not a valid timeframe of the aggregation and is not
  selected by the scan for alerts.
\<close>

theorem insufficient_data_never_raises:
  "analyzeSymbolBody sy tf None =
     Inr \<lparr>symbol = sy, timeframe = tf, currentPrice = None, decision = INSUFFICIENT_DATA,
          confidence = None, signals = None, indicators = None,
          reason = Some ''Not enough historical data''\<rparr>
   \<and> (length h < 20 \<longrightarrow>
        analyzeSymbolBody sy tf (Some h) =
          Inr \<lparr>symbol = sy, timeframe = tf, currentPrice = None, decision = INSUFFICIENT_DATA,
               confidence = None, signals = None, indicators = None,
               reason = Some ''Not enough historical data''\<rparr>)
   \<and> analyzeSymbolBody sy tf fetched = Inr (analyzeSeries sy tf fetched)
   \<and> analyzeSymbolBody sy tf fetched \<noteq> Inl TypeError
   \<and> (decision a = INSUFFICIENT_DATA \<and> confidence a = None \<longrightarrow>
        validTimeframes (decisionsOf [(tf, a)]) = (0, 8) \<and> scanTimeframes sy [(tf, a)] = [])"
proof (intro conjI impI)
  show "analyzeSymbolBody sy tf None =
     Inr \<lparr>symbol = sy, timeframe = tf, currentPrice = None, decision = INSUFFICIENT_DATA,
          confidence = None, signals = None, indicators = None,
          reason = Some ''Not enough historical data''\<rparr>"
    by (simp add: analyzeSymbolBody_total analyzeSeries_short)
  show "analyzeSymbolBody sy tf fetched = Inr (analyzeSeries sy tf fetched)"
    by (rule analyzeSymbolBody_total)
  show "analyzeSymbolBody sy tf fetched \<noteq> Inl TypeError"
    by (simp add: analyzeSymbolBody_total)
next
  assume "length h < 20"
  then show "analyzeSymbolBody sy tf (Some h) =
          Inr \<lparr>symbol = sy, timeframe = tf, currentPrice = None, decision = INSUFFICIENT_DATA,
               confidence = None, signals = None, indicators = None,
               reason = Some ''Not enough historical data''\<rparr>"
    by (simp add: analyzeSymbolBody_total analyzeSeries_short)
next
  assume a: "decision a = INSUFFICIENT_DATA \<and> confidence a = None"
  then show "validTimeframes (decisionsOf [(tf, a)]) = (0, 8)"
    by (simp add: validTimeframes_def decisionsOf_def TIMEFRAMES_def)
  from a show "scanTimeframes sy [(tf, a)] = []" by simp
qed

theorem insufficient_data_never_raises_witness:
  "length [1, 2, 3 :: real] < 20
   \<and> analyzeSymbolBody ''BTC'' ''1d'' (Some [1, 2, 3]) =
        Inr \<lparr>symbol = ''BTC'', timeframe = ''1d'', currentPrice = None,
             decision = INSUFFICIENT_DATA, confidence = None, signals = None,
             indicators = None, reason = Some ''Not enough historical data''\<rparr>
   \<and> analyzeSymbolBody ''BTC'' ''1d'' (Some []) =
        Inr \<lparr>symbol = ''BTC'', timeframe = ''1d'', currentPrice = None,
             decision = INSUFFICIENT_DATA, confidence = None, signals = None,
             indicators = None, reason = Some ''Not enough historical data''\<rparr>
   \<and> validTimeframes (decisionsOf [(''1d'', analyzeSeries ''BTC'' ''1d'' (Some [1, 2, 3]))]) = (0, 8)
   \<and> scanTimeframes ''BTC'' [(''1d'', analyzeSeries ''BTC'' ''1d'' (Some [1, 2, 3]))] = []"
  using insufficient_data_never_raises
      [of "''BTC''" "''1d''" "[1, 2, 3]" "Some [1, 2, 3]" "analyzeSeries ''BTC'' ''1d'' (Some [1, 2, 3])"]
    insufficient_data_never_raises [of "''BTC''" "''1d''" "[]"]
  by (simp add: analyzeSeries_short)

section \<open>The analysis as a function of the series\<close>












end
